theory Spec2Isabelle
  imports Main "HOL-Library.Char_ord" "HOL-Library.List_Lexorder"
begin

section \<open>Python values used by glabra\<close>

text \<open>
  Every exception the modelled code can raise is a value. All of glabra's own failures are
  \<^verbatim>\<open>ValueError\<close>s that differ in their message; the message is kept as a
  constructor so that the different failures stay apart.
\<close>

datatype message =
    NoNgrams              \<comment> \<open>"Must provide some start and end n-grams."\<close>
  | NgramTooShort         \<comment> \<open>"n-grams must have a length greater than one."\<close>
  | IllegalLength         \<comment> \<open>"n-gram '{0}' is not of length {1}"\<close>
  | EmptyStartVertices    \<comment> \<open>"Set of start vertices must be non empty."\<close>
  | EmptyEndVertices      \<comment> \<open>"Set of end vertices must be non empty."\<close>
  | TooFewVertices        \<comment> \<open>"Number of connected vertices must be greater than one."\<close>
  | PathDisconnected      \<comment> \<open>"Start and end vertices are disconnected."\<close>
  | NgramsDisconnected    \<comment> \<open>"Provided n-grams are disconnected."\<close>
  | EmptyRange            \<comment> \<open>raised by \<^verbatim>\<open>random.randint\<close> on an empty range\<close>

datatype error = ValueError message | AssertionError | IndexError | TypeError | AttributeError

text \<open>\<^verbatim>\<open>len(xs)\<close> is a Python integer.\<close>

definition py_len :: "'a list \<Rightarrow> int" where
  "py_len xs = int (length xs)"

text \<open>
  Slices \<^verbatim>\<open>xs[i:]\<close> and \<^verbatim>\<open>xs[:i]\<close>: a negative bound counts from the end and
  is clipped at the start of the sequence, a bound beyond the end is clipped at the end.
\<close>

definition slice_from :: "int \<Rightarrow> 'a list \<Rightarrow> 'a list" where
  "slice_from i xs = (if i < 0 then drop (nat (py_len xs + i)) xs else drop (nat i) xs)"

definition slice_to :: "int \<Rightarrow> 'a list \<Rightarrow> 'a list" where
  "slice_to i xs = (if i < 0 then take (nat (py_len xs + i)) xs else take (nat i) xs)"

section \<open>dedge.py: the overlap index\<close>

text \<open>
  An n-gram is a sequence (a string, or a tuple of tokens). A multimap dictionary maps an
  overlap key to the set of n-grams that carry it.
\<close>

type_synonym 'a overlap_dict = "'a list \<rightharpoonup> 'a list set"

text \<open>\<^verbatim>\<open>result.setdefault(key, set()).add(ng)\<close>\<close>

definition setdefault_add :: "'a overlap_dict \<Rightarrow> 'a list \<Rightarrow> 'a list \<Rightarrow> 'a overlap_dict" where
  "setdefault_add result key ng =
     result(key \<mapsto> insert ng (case result key of None \<Rightarrow> {} | Some s \<Rightarrow> s))"

text \<open>
  The loop of \<^verbatim>\<open>_get_end_overlap_dict\<close>, with the dictionary built so far. The
  \<^verbatim>\<open>assert\<close> fires before the \<^verbatim>\<open>raise ValueError\<close> below it can.
\<close>

fun end_overlap_loop ::
  "'a overlap_dict \<Rightarrow> 'a list list \<Rightarrow> int \<Rightarrow> int \<Rightarrow> error + 'a overlap_dict" where
  "end_overlap_loop result [] len_overlap len_end_ng = Inr result"
| "end_overlap_loop result (ng # ngs) len_overlap len_end_ng =
     (if py_len ng \<noteq> len_end_ng then Inl AssertionError
      else end_overlap_loop (setdefault_add result (slice_to len_overlap ng) ng)
             ngs len_overlap len_end_ng)"

definition get_end_overlap_dict :: "'a list list \<Rightarrow> int \<Rightarrow> int \<Rightarrow> error + 'a overlap_dict" where
  "get_end_overlap_dict end_ngs len_overlap len_end_ng =
     end_overlap_loop Map.empty end_ngs len_overlap len_end_ng"

fun start_overlap_loop ::
  "'a overlap_dict \<Rightarrow> 'a list list \<Rightarrow> int \<Rightarrow> int \<Rightarrow> error + 'a overlap_dict" where
  "start_overlap_loop result [] len_overlap len_start_ng = Inr result"
| "start_overlap_loop result (ng # ngs) len_overlap len_start_ng =
     (if py_len ng \<noteq> len_start_ng then Inl (ValueError IllegalLength)
      else start_overlap_loop (setdefault_add result (slice_from (- len_overlap) ng) ng)
             ngs len_overlap len_start_ng)"

definition get_start_overlap_dict :: "'a list list \<Rightarrow> int \<Rightarrow> int \<Rightarrow> error + 'a overlap_dict" where
  "get_start_overlap_dict start_ngs len_overlap len_start_ng =
     start_overlap_loop Map.empty start_ngs len_overlap len_start_ng"

record 'a DirectedEdgeGetter =
  len_start :: int
  len_end :: int
  len_overlap :: int
  start_overlap_dict :: "'a overlap_dict"
  end_overlap_dict :: "'a overlap_dict"

text \<open>\<^verbatim>\<open>DirectedEdgeGetter.__init__\<close>\<close>

definition DirectedEdgeGetter_init ::
  "'a list list \<Rightarrow> 'a list list \<Rightarrow> error + 'a DirectedEdgeGetter" where
  "DirectedEdgeGetter_init start_ngs end_ngs =
     (if length start_ngs < 1 \<or> length end_ngs < 1 then Inl (ValueError NoNgrams)
      else
        let ls = py_len (hd start_ngs); le = py_len (hd end_ngs) in
        if ls < 2 \<or> le < 2 then Inl (ValueError NgramTooShort)
        else
          let lo = min ls le - 1 in
          (case get_start_overlap_dict start_ngs lo ls of
             Inl e \<Rightarrow> Inl e
           | Inr sd \<Rightarrow>
              (case get_end_overlap_dict end_ngs lo le of
                 Inl e \<Rightarrow> Inl e
               | Inr ed \<Rightarrow>
                  Inr \<lparr>len_start = ls, len_end = le, len_overlap = lo,
                       start_overlap_dict = sd, end_overlap_dict = ed\<rparr>)))"

text \<open>\<^verbatim>\<open>dict.get(key, set())\<close>\<close>

definition dict_get :: "'a overlap_dict \<Rightarrow> 'a list \<Rightarrow> 'a list set" where
  "dict_get d key = (case d key of None \<Rightarrow> {} | Some s \<Rightarrow> s)"

definition get_end_vertices :: "'a DirectedEdgeGetter \<Rightarrow> 'a list \<Rightarrow> error + 'a list set" where
  "get_end_vertices d start_ng =
     (if py_len start_ng \<noteq> len_start d then Inl (ValueError IllegalLength)
      else Inr (dict_get (end_overlap_dict d) (slice_from (- len_overlap d) start_ng)))"

definition get_start_vertices :: "'a DirectedEdgeGetter \<Rightarrow> 'a list \<Rightarrow> error + 'a list set" where
  "get_start_vertices d end_ng =
     (if py_len end_ng \<noteq> len_end d then Inl (ValueError IllegalLength)
      else Inr (dict_get (start_overlap_dict d) (slice_to (len_overlap d) end_ng)))"

section \<open>create.py: concatenation of n-grams\<close>

text \<open>One pass of the loop body of \<^verbatim>\<open>_concat_ngram_list\<close>, at index \<open>i\<close>.\<close>

definition concat_step :: "'a list list \<Rightarrow> 'a list \<Rightarrow> nat \<Rightarrow> 'a list" where
  "concat_step ngram_list result i =
     (let prev_ngram = ngram_list ! (i - 1);
          ngram = ngram_list ! i;
          len_ov = min (py_len prev_ngram) (py_len ngram) - 1
      in result @ slice_from len_ov ngram)"

text \<open>
  \<^verbatim>\<open>_concat_ngram_list\<close>: \<^verbatim>\<open>ngram_list[0]\<close> raises on the empty list; the loop
  runs over \<^verbatim>\<open>range(1, len(ngram_list))\<close>.
\<close>

definition concat_ngram_list :: "'a list list \<Rightarrow> error + 'a list" where
  "concat_ngram_list ngram_list =
     (case ngram_list of
        [] \<Rightarrow> Inl IndexError
      | first # _ \<Rightarrow> Inr (foldl (concat_step ngram_list) first [1..<length ngram_list]))"

section \<open>graph.py: the path finder\<close>

text \<open>
  The path finder is handed any object with the two lookup methods of a directed edge
  getter; either method may raise.
\<close>

record 'v dedge =
  dedge_get_end_vertices :: "'v \<Rightarrow> error + 'v set"
  dedge_get_start_vertices :: "'v \<Rightarrow> error + 'v set"

definition as_dedge :: "'a DirectedEdgeGetter \<Rightarrow> 'a list dedge" where
  "as_dedge d =
     \<lparr>dedge_get_end_vertices = get_end_vertices d,
      dedge_get_start_vertices = get_start_vertices d\<rparr>"

text \<open>
  A Python set is a finite set together with the order in which it is iterated. The
  order is not specified by the language, so every operation that iterates a set takes
  the listing function as a parameter.
\<close>

type_synonym 'v set_order = "'v set \<Rightarrow> 'v list"

text \<open>
  \<^verbatim>\<open>_expand\<close>: \<^verbatim>\<open>set(itertools.chain(*[expand_fn(x) for x in the_set]))\<close>. The
  argument is the iteration of \<^verbatim>\<open>the_set\<close>; the first failing call raises.
\<close>

fun expand :: "'v list \<Rightarrow> ('v \<Rightarrow> error + 'w set) \<Rightarrow> error + 'w set" where
  "expand [] expand_fn = Inr {}"
| "expand (x # xs) expand_fn =
     (case expand_fn x of
        Inl e \<Rightarrow> Inl e
      | Inr s \<Rightarrow> (case expand xs expand_fn of Inl e \<Rightarrow> Inl e | Inr t \<Rightarrow> Inr (s \<union> t)))"

text \<open>\<^verbatim>\<open>expand_update\<close> returns the updated \<^verbatim>\<open>the_set\<close>.\<close>

definition expand_update ::
  "'w set \<Rightarrow> 'v list \<Rightarrow> ('v \<Rightarrow> error + 'w set) \<Rightarrow> error + 'w set" where
  "expand_update the_set other_set expand_fn =
     (case expand other_set expand_fn of Inl e \<Rightarrow> Inl e | Inr s \<Rightarrow> Inr (the_set \<inter> s))"

record 'v GraphPathFinder =
  start_vertices :: "'v list"
  end_vertices :: "'v list"
  num_vertices :: int
  dedge :: "'v dedge"
  step_sets :: "'v set list"
  is_disconnected :: bool

text \<open>
  The first loop of \<^verbatim>\<open>_build_step_sets\<close> ("build intermediate steps"). The result
  carries the step sets, both indices, and whether the method returned from inside the loop
  with the disconnected flag set.
\<close>

function meet_loop ::
  "'v set_order \<Rightarrow> 'v dedge \<Rightarrow> 'v set list \<Rightarrow> int \<Rightarrow> int
     \<Rightarrow> error + ('v set list \<times> int \<times> int \<times> bool)" where
  "meet_loop order dg ss earlier_index later_index =
     (if earlier_index < later_index - 1 then
        let earlier_set = ss ! nat earlier_index;
            later_set = ss ! nat later_index
        in
        if card earlier_set < card later_set then
          (case expand (order earlier_set) (dedge_get_end_vertices dg) of
             Inl e \<Rightarrow> Inl e
           | Inr new_set \<Rightarrow>
               if card new_set = 0
               then Inr (ss[nat (earlier_index + 1) := new_set], earlier_index + 1, later_index, True)
               else meet_loop order dg (ss[nat (earlier_index + 1) := new_set])
                      (earlier_index + 1) later_index)
        else
          (case expand (order later_set) (dedge_get_start_vertices dg) of
             Inl e \<Rightarrow> Inl e
           | Inr new_set \<Rightarrow>
               if card new_set = 0
               then Inr (ss[nat (later_index - 1) := new_set], earlier_index, later_index - 1, True)
               else meet_loop order dg (ss[nat (later_index - 1) := new_set])
                      earlier_index (later_index - 1))
      else Inr (ss, earlier_index, later_index, False))"
  by pat_completeness auto
termination
  by (relation "measure (\<lambda>(order, dg, ss, earlier_index, later_index).
        nat (later_index - earlier_index))") auto

declare meet_loop.simps [simp del]

text \<open>
  The second loop ("filter later intermediate steps"), over the values of
  \<^verbatim>\<open>range(earlier_index, num_vertices - 1)\<close> still to come.
\<close>

fun filter_later ::
  "'v set_order \<Rightarrow> 'v dedge \<Rightarrow> int list \<Rightarrow> 'v set list \<Rightarrow> error + ('v set list \<times> bool)" where
  "filter_later order dg [] ss = Inr (ss, False)"
| "filter_later order dg (i # is) ss =
     (case expand_update (ss ! nat (i + 1)) (order (ss ! nat i)) (dedge_get_end_vertices dg) of
        Inl e \<Rightarrow> Inl e
      | Inr s \<Rightarrow>
          if card s = 0 then Inr (ss[nat (i + 1) := s], True)
          else filter_later order dg is (ss[nat (i + 1) := s]))"

text \<open>
  The third loop ("filter early intermediate steps"), over the values of
  \<^verbatim>\<open>reversed(range(1, later_index + 1))\<close> still to come.
\<close>

fun filter_earlier ::
  "'v set_order \<Rightarrow> 'v dedge \<Rightarrow> int list \<Rightarrow> 'v set list \<Rightarrow> error + ('v set list \<times> bool)" where
  "filter_earlier order dg [] ss = Inr (ss, False)"
| "filter_earlier order dg (i # is) ss =
     (case expand_update (ss ! nat (i - 1)) (order (ss ! nat i)) (dedge_get_start_vertices dg) of
        Inl e \<Rightarrow> Inl e
      | Inr s \<Rightarrow>
          if card s = 0 then Inr (ss[nat (i - 1) := s], True)
          else filter_earlier order dg is (ss[nat (i - 1) := s]))"

text \<open>
  \<^verbatim>\<open>_build_step_sets\<close>. It runs only after the constructor has checked
  \<^verbatim>\<open>num_vertices >= 2\<close>, so index \<^verbatim>\<open>-1\<close> is the last of at least two slots.
\<close>

definition build_step_sets ::
  "'v set_order \<Rightarrow> 'v GraphPathFinder \<Rightarrow> error + 'v GraphPathFinder" where
  "build_step_sets order g =
     (let n = num_vertices g;
          ss0 = replicate (nat n) {};
          ss1 = ss0[0 := set (start_vertices g)];
          ss2 = ss1[length ss1 - 1 := set (end_vertices g)]
      in
      case meet_loop order (dedge g) ss2 0 (n - 1) of
        Inl e \<Rightarrow> Inl e
      | Inr (ss3, earlier_index, later_index, stop1) \<Rightarrow>
          if stop1 then Inr (g\<lparr>step_sets := ss3, is_disconnected := True\<rparr>)
          else
            (case filter_later order (dedge g) [earlier_index..n - 2] ss3 of
               Inl e \<Rightarrow> Inl e
             | Inr (ss4, stop2) \<Rightarrow>
                 if stop2 then Inr (g\<lparr>step_sets := ss4, is_disconnected := True\<rparr>)
                 else
                   (case filter_earlier order (dedge g) (rev [1..later_index]) ss4 of
                      Inl e \<Rightarrow> Inl e
                    | Inr (ss5, stop3) \<Rightarrow>
                        if stop3 then Inr (g\<lparr>step_sets := ss5, is_disconnected := True\<rparr>)
                        else Inr (g\<lparr>step_sets := ss5\<rparr>))))"

text \<open>\<^verbatim>\<open>GraphPathFinder.__init__\<close>\<close>

definition GraphPathFinder_init ::
  "'v set_order \<Rightarrow> 'v list \<Rightarrow> 'v list \<Rightarrow> int \<Rightarrow> 'v dedge \<Rightarrow> error + 'v GraphPathFinder" where
  "GraphPathFinder_init order start_vs end_vs num directed_edge_getter =
     (if length start_vs < 1 then Inl (ValueError EmptyStartVertices)
      else if length end_vs < 1 then Inl (ValueError EmptyEndVertices)
      else if num < 2 then Inl (ValueError TooFewVertices)
      else build_step_sets order
             \<lparr>start_vertices = start_vs, end_vertices = end_vs, num_vertices = num,
              dedge = directed_edge_getter, step_sets = [], is_disconnected = False\<rparr>)"

subsection \<open>Enumeration of all paths\<close>

text \<open>
  The number of unvisited siblings recorded at each step up to the current one, followed
  by the current step: the quantity that decreases in every round of the search loop.
\<close>

definition unvisited :: "'v list option \<Rightarrow> nat" where
  "unvisited slot = (case slot of None \<Rightarrow> 0 | Some vs \<Rightarrow> length vs)"

definition search_measure :: "int \<Rightarrow> 'v list option list \<Rightarrow> nat list" where
  "search_measure step_index steps_vertices =
     map (\<lambda>k. if int k \<le> step_index then unvisited (steps_vertices ! k) else 0)
       [0..<length steps_vertices] @ [nat (step_index + 1)]"

text \<open>
  The loop of \<^verbatim>\<open>_get_all_paths_generator\<close>; the result lists the yielded tuples in
  the order they are yielded. \<^verbatim>\<open>path\<close> and \<^verbatim>\<open>steps_vertices\<close> start out filled
  with \<^verbatim>\<open>None\<close>. Reading or writing a list outside its range raises
  \<^verbatim>\<open>IndexError\<close>, and taking the length of \<^verbatim>\<open>None\<close> raises \<^verbatim>\<open>TypeError\<close>.
  \<^verbatim>\<open>pop()\<close> removes the last element of the current listing.
\<close>

function paths_loop ::
  "'v set_order \<Rightarrow> 'v GraphPathFinder \<Rightarrow> 'v option list \<Rightarrow> int \<Rightarrow> 'v list option list
     \<Rightarrow> error + 'v option list list" where
  "paths_loop order g path step_index steps_vertices =
     (if step_index > -1 then
        if \<not> nat step_index < length steps_vertices then Inl IndexError
        else
          (case steps_vertices ! nat step_index of
             None \<Rightarrow> Inl TypeError
           | Some vertices \<Rightarrow>
               if length vertices = 0
               then paths_loop order g path (step_index - 1) steps_vertices
               else
                 let vertex = last vertices;
                     steps_vertices1 = steps_vertices[nat step_index := Some (butlast vertices)]
                 in
                 if \<not> nat step_index < length path then Inl IndexError
                 else
                   let path1 = path[nat step_index := Some vertex] in
                   if step_index = num_vertices g - 1 then
                     (case paths_loop order g path1 step_index steps_vertices1 of
                        Inl e \<Rightarrow> Inl e
                      | Inr rest \<Rightarrow> Inr (path1 # rest))
                   else
                     (case dedge_get_end_vertices (dedge g) vertex of
                        Inl e \<Rightarrow> Inl e
                      | Inr ends \<Rightarrow>
                          if \<not> nat (step_index + 1) < length (step_sets g) then Inl IndexError
                          else if \<not> nat (step_index + 1) < length steps_vertices
                          then Inl IndexError
                          else
                            paths_loop order g path1 (step_index + 1)
                              (steps_vertices1[nat (step_index + 1) :=
                                 Some (order (ends \<inter> step_sets g ! nat (step_index + 1)))])))
      else Inr [])"
  by pat_completeness auto


text \<open>Termination of the search: the measure decreases lexicographically.\<close>

lemma lex_map_upt_less:
  assumes "i < n" and "\<And>k. k < i \<Longrightarrow> f k = g k" and "f i < (g i :: nat)"
  shows "(map f [0..<n] @ [a], map g [0..<n] @ [b]) \<in> lex less_than"
proof -
  have "[0..<i + (n - i)] = [0..<i] @ [i..<i + (n - i)]"
    by (rule upt_add_eq_append) simp
  then have "[0..<n] = [0..<i] @ [i..<n]"
    using assms(1) by simp
  also have "[i..<n] = i # [Suc i..<n]"
    using assms(1) by (rule upt_conv_Cons)
  finally have split: "[0..<n] = [0..<i] @ i # [Suc i..<n]" .
  have pre: "map f [0..<i] = map g [0..<i]"
    using assms(2) by simp
  show ?thesis
    unfolding split map_append list.map append_assoc pre
    by (rule lex_append_leftI) (simp add: assms(3))
qed

lemma lex_map_upt_last:
  assumes "\<And>k. k < n \<Longrightarrow> f k = g k" and "a < (b :: nat)"
  shows "(map f [0..<n] @ [a], map g [0..<n] @ [b]) \<in> lex less_than"
proof -
  have pre: "map f [0..<n] = map g [0..<n]"
    using assms(1) by simp
  show ?thesis
    unfolding pre by (rule lex_append_leftI) (simp add: assms(2))
qed

termination paths_loop
proof (relation "inv_image (lex less_than) (\<lambda>(order, g, path, step_index, steps_vertices).
          search_measure step_index steps_vertices)", goal_cases)
  case 1
  show ?case by (intro wf_inv_image wf_lex wf_less_than)
next
  case (2 order g path step_index steps_vertices vertices)
  then show ?case
    apply (simp add: search_measure_def)
    apply (rule lex_map_upt_last)
     apply (auto simp: unvisited_def)
    done
next
  case (3 order g path step_index steps_vertices vertices vertex sv1 path1)
  then show ?case
    apply (simp add: search_measure_def)
    apply (rule lex_map_upt_less [where i = "nat step_index"])
      apply (auto simp: unvisited_def)
    done
next
  case (4 order g path step_index steps_vertices vertices vertex sv1 path1 ends)
  then show ?case
    apply (simp add: search_measure_def)
    apply (rule lex_map_upt_less [where i = "nat step_index"])
      apply (auto simp: unvisited_def)
    done
qed

declare paths_loop.simps [simp del]

text \<open>\<^verbatim>\<open>_get_all_paths_generator\<close>, run to exhaustion.\<close>

definition get_all_paths_generator ::
  "'v set_order \<Rightarrow> 'v GraphPathFinder \<Rightarrow> error + 'v option list list" where
  "get_all_paths_generator order g =
     (let path = replicate (nat (num_vertices g)) None;
          step_index = 0;
          steps_vertices = replicate (nat (num_vertices g)) None
      in
      if \<not> 0 < length (step_sets g) \<or> \<not> 0 < length steps_vertices then Inl IndexError
      else paths_loop order g path step_index
             (steps_vertices[0 := Some (order (step_sets g ! 0))]))"

text \<open>\<^verbatim>\<open>get_all_paths\<close>\<close>

definition get_all_paths ::
  "'v set_order \<Rightarrow> 'v GraphPathFinder \<Rightarrow> error + 'v option list list" where
  "get_all_paths order g =
     (if is_disconnected g then Inl (ValueError PathDisconnected)
      else get_all_paths_generator order g)"

subsection \<open>Random paths\<close>

text \<open>
  The random source is the sequence of its future raw draws. \<^verbatim>\<open>random.randint(a, b)\<close>
  turns a draw into any integer of \<open>[a, b]\<close>, \<^verbatim>\<open>random.choice(seq)\<close> into any
  position of \<^verbatim>\<open>seq\<close>, and raises \<^verbatim>\<open>IndexError\<close> on an empty sequence. Each
  call consumes one draw.
\<close>

type_synonym rng = "nat \<Rightarrow> nat"

definition randint :: "rng \<Rightarrow> int \<Rightarrow> int \<Rightarrow> error + (int \<times> rng)" where
  "randint r a b =
     (if b < a then Inl (ValueError EmptyRange)
      else Inr (a + int (r 0 mod nat (b - a + 1)), \<lambda>i. r (Suc i)))"

definition choice :: "rng \<Rightarrow> 'a list \<Rightarrow> error + ('a \<times> rng)" where
  "choice r xs =
     (if xs = [] then Inl IndexError
      else Inr (xs ! (r 0 mod length xs), \<lambda>i. r (Suc i)))"

text \<open>
  The loop "fill earlier steps", over the values of
  \<^verbatim>\<open>reversed(range(1, start_step_index + 1))\<close> still to come. A slot of \<^verbatim>\<open>path\<close>
  that still held \<^verbatim>\<open>None\<close> would reach the edge getter as a vertex; the model makes
  that a \<^verbatim>\<open>TypeError\<close>.
\<close>

fun fill_earlier ::
  "'v set_order \<Rightarrow> 'v GraphPathFinder \<Rightarrow> int list \<Rightarrow> 'v option list \<Rightarrow> rng
     \<Rightarrow> error + ('v option list \<times> rng)" where
  "fill_earlier order g [] path r = Inr (path, r)"
| "fill_earlier order g (i # is) path r =
     (case path ! nat i of
        None \<Rightarrow> Inl TypeError
      | Some v \<Rightarrow>
          (case dedge_get_start_vertices (dedge g) v of
             Inl e \<Rightarrow> Inl e
           | Inr starts \<Rightarrow>
               (case choice r (order (starts \<inter> step_sets g ! nat (i - 1))) of
                  Inl e \<Rightarrow> Inl e
                | Inr (u, r') \<Rightarrow> fill_earlier order g is (path[nat (i - 1) := Some u]) r')))"

text \<open>
  The loop "fill later steps", over the values of
  \<^verbatim>\<open>range(start_step_index, num_vertices - 1)\<close> still to come.
\<close>

fun fill_later ::
  "'v set_order \<Rightarrow> 'v GraphPathFinder \<Rightarrow> int list \<Rightarrow> 'v option list \<Rightarrow> rng
     \<Rightarrow> error + ('v option list \<times> rng)" where
  "fill_later order g [] path r = Inr (path, r)"
| "fill_later order g (i # is) path r =
     (case path ! nat i of
        None \<Rightarrow> Inl TypeError
      | Some v \<Rightarrow>
          (case dedge_get_end_vertices (dedge g) v of
             Inl e \<Rightarrow> Inl e
           | Inr ends \<Rightarrow>
               (case choice r (order (ends \<inter> step_sets g ! nat (i + 1))) of
                  Inl e \<Rightarrow> Inl e
                | Inr (w, r') \<Rightarrow> fill_later order g is (path[nat (i + 1) := Some w]) r')))"

text \<open>\<^verbatim>\<open>get_random_path\<close>; the result is the tuple and the random source left over.\<close>

definition get_random_path ::
  "'v set_order \<Rightarrow> 'v GraphPathFinder \<Rightarrow> rng \<Rightarrow> error + ('v option list \<times> rng)" where
  "get_random_path order g r =
     (if is_disconnected g then Inl (ValueError PathDisconnected)
      else
        let path = replicate (nat (num_vertices g)) None in
        (case randint r 0 (num_vertices g - 1) of
           Inl e \<Rightarrow> Inl e
         | Inr (start_step_index, r1) \<Rightarrow>
             (case choice r1 (order (step_sets g ! nat start_step_index)) of
                Inl e \<Rightarrow> Inl e
              | Inr (v, r2) \<Rightarrow>
                  (case fill_earlier order g (rev [1..start_step_index])
                          (path[nat start_step_index := Some v]) r2 of
                     Inl e \<Rightarrow> Inl e
                   | Inr (path1, r3) \<Rightarrow>
                       fill_later order g [start_step_index..num_vertices g - 2] path1 r3))))"

section \<open>create.py: the sequence creator\<close>

definition get_len_single_middle_vertex :: "int \<Rightarrow> int \<Rightarrow> int \<Rightarrow> int" where
  "get_len_single_middle_vertex len_leading len_middle len_trailing =
     (max len_leading len_middle + 1) + (max len_trailing len_middle + 1) - len_middle"

definition get_num_middle_vertices :: "int \<Rightarrow> int \<Rightarrow> int \<Rightarrow> int \<Rightarrow> int" where
  "get_num_middle_vertices len_seq len_leading len_middle len_trailing =
     (let len_single_middle_vertex =
            get_len_single_middle_vertex len_leading len_middle len_trailing
      in len_seq - len_single_middle_vertex + 1)"

text \<open>
  The two path functions that the constructor stores are closures: over the set of legal
  middle n-grams in the single-vertex case, over a path finder otherwise.
\<close>

datatype 'a path_fns = SingleMiddle "'a list set" | MultiMiddle "'a list GraphPathFinder"

text \<open>
  The attributes of a constructed object. The path functions are absent when the
  constructor returned before assigning them.
\<close>

record 'a SequenceCreator =
  leading_to_middle_dedge :: "'a DirectedEdgeGetter"
  middle_to_trailing_dedge :: "'a DirectedEdgeGetter"
  sc_start_vertices :: "'a list set"
  sc_end_vertices :: "'a list set"
  sc_is_disconnected :: bool
  sc_path_fns :: "'a path_fns option"

text \<open>\<^verbatim>\<open>_single_middle_vertex_init\<close>\<close>

definition single_middle_vertex_init ::
  "'a DirectedEdgeGetter \<Rightarrow> 'a DirectedEdgeGetter \<Rightarrow> 'a list set \<Rightarrow> 'a list set
     \<Rightarrow> 'a SequenceCreator" where
  "single_middle_vertex_init l2m m2t start_vs end_vs =
     (let middle = start_vs \<inter> end_vs in
      if card middle = 0 then
        \<lparr>leading_to_middle_dedge = l2m, middle_to_trailing_dedge = m2t,
         sc_start_vertices = start_vs, sc_end_vertices = end_vs,
         sc_is_disconnected = True, sc_path_fns = None\<rparr>
      else
        \<lparr>leading_to_middle_dedge = l2m, middle_to_trailing_dedge = m2t,
         sc_start_vertices = start_vs, sc_end_vertices = end_vs,
         sc_is_disconnected = False, sc_path_fns = Some (SingleMiddle middle)\<rparr>)"

text \<open>
  \<^verbatim>\<open>_multi_middle_vertex_init\<close>; the path finder receives the two vertex sets
  themselves, which it measures with \<^verbatim>\<open>len\<close> and copies with \<^verbatim>\<open>set\<close>.
\<close>

definition multi_middle_vertex_init ::
  "'a list set_order \<Rightarrow> 'a DirectedEdgeGetter \<Rightarrow> 'a DirectedEdgeGetter \<Rightarrow> 'a list set
     \<Rightarrow> 'a list set \<Rightarrow> 'a list list \<Rightarrow> int \<Rightarrow> error + 'a SequenceCreator" where
  "multi_middle_vertex_init order l2m m2t start_vs end_vs ngs_middle num_middle_vertices =
     (case DirectedEdgeGetter_init ngs_middle ngs_middle of
        Inl e \<Rightarrow> Inl e
      | Inr middle_to_middle_dedge \<Rightarrow>
          (case GraphPathFinder_init order (order start_vs) (order end_vs)
                  num_middle_vertices (as_dedge middle_to_middle_dedge) of
             Inl e \<Rightarrow> Inl e
           | Inr gpf \<Rightarrow>
               Inr \<lparr>leading_to_middle_dedge = l2m, middle_to_trailing_dedge = m2t,
                    sc_start_vertices = start_vs, sc_end_vertices = end_vs,
                    sc_is_disconnected = is_disconnected gpf,
                    sc_path_fns = Some (MultiMiddle gpf)\<rparr>))"

text \<open>
  \<^verbatim>\<open>SequenceCreator.__init__\<close>. The pools are lists; \<^verbatim>\<open>ngrams_leading[0]\<close> and
  its two companions are read only after both indices were built, which needs every pool
  non-empty.
\<close>

definition SequenceCreator_init ::
  "'a list set_order \<Rightarrow> int \<Rightarrow> 'a list list \<Rightarrow> 'a list list \<Rightarrow> 'a list list
     \<Rightarrow> error + 'a SequenceCreator" where
  "SequenceCreator_init order sequence_length ngrams_leading ngrams_middle ngrams_trailing =
     (case DirectedEdgeGetter_init ngrams_leading ngrams_middle of
        Inl e \<Rightarrow> Inl e
      | Inr l2m \<Rightarrow>
     (case DirectedEdgeGetter_init ngrams_middle ngrams_trailing of
        Inl e \<Rightarrow> Inl e
      | Inr m2t \<Rightarrow>
     (case expand_update (set ngrams_middle) ngrams_leading (get_end_vertices l2m) of
        Inl e \<Rightarrow> Inl e
      | Inr start_vs \<Rightarrow>
     (case expand_update (set ngrams_middle) ngrams_trailing (get_start_vertices m2t) of
        Inl e \<Rightarrow> Inl e
      | Inr end_vs \<Rightarrow>
          if card start_vs = 0 \<or> card end_vs = 0 then
            Inr \<lparr>leading_to_middle_dedge = l2m, middle_to_trailing_dedge = m2t,
                 sc_start_vertices = start_vs, sc_end_vertices = end_vs,
                 sc_is_disconnected = True, sc_path_fns = None\<rparr>
          else
            let len_leading = py_len (hd ngrams_leading);
                len_middle = py_len (hd ngrams_middle);
                len_trailing = py_len (hd ngrams_trailing);
                num_middle_vertices =
                  get_num_middle_vertices sequence_length len_leading len_middle len_trailing
            in
            if num_middle_vertices = 1
            then Inr (single_middle_vertex_init l2m m2t start_vs end_vs)
            else multi_middle_vertex_init order l2m m2t start_vs end_vs
                   ngrams_middle num_middle_vertices))))"

text \<open>\<^verbatim>\<open>self._get_random_path_fn()\<close>\<close>

definition get_random_path_fn ::
  "'a list set_order \<Rightarrow> 'a path_fns \<Rightarrow> rng \<Rightarrow> error + ('a list option list \<times> rng)" where
  "get_random_path_fn order fns r =
     (case fns of
        SingleMiddle middle \<Rightarrow>
          (case choice r (order middle) of Inl e \<Rightarrow> Inl e | Inr (x, r') \<Rightarrow> Inr ([Some x], r'))
      | MultiMiddle gpf \<Rightarrow> get_random_path order gpf r)"

text \<open>\<^verbatim>\<open>self._get_all_paths_fn()\<close>, iterated to its end.\<close>

definition get_all_paths_fn ::
  "'a list set_order \<Rightarrow> 'a path_fns \<Rightarrow> error + 'a list option list list" where
  "get_all_paths_fn order fns =
     (case fns of
        SingleMiddle middle \<Rightarrow> Inr (map (\<lambda>x. [Some x]) (order middle))
      | MultiMiddle gpf \<Rightarrow> get_all_paths order gpf)"

text \<open>
  Joining a leading n-gram, a path and a trailing n-gram. A path slot holding
  \<^verbatim>\<open>None\<close> makes \<^verbatim>\<open>len\<close> raise inside the concatenation.
\<close>

definition join_sequence ::
  "'a list \<Rightarrow> 'a list option list \<Rightarrow> 'a list \<Rightarrow> error + 'a list" where
  "join_sequence ngram_leading path ngram_trailing =
     (case those path of
        None \<Rightarrow> Inl TypeError
      | Some middle \<Rightarrow> concat_ngram_list ([ngram_leading] @ middle @ [ngram_trailing]))"

text \<open>\<^verbatim>\<open>index.get_start_vertices(path[0])\<close> and \<^verbatim>\<open>index.get_end_vertices(path[-1])\<close>\<close>

definition leading_of ::
  "'a DirectedEdgeGetter \<Rightarrow> 'a list option list \<Rightarrow> error + 'a list set" where
  "leading_of l2m path =
     (case path of
        [] \<Rightarrow> Inl IndexError
      | first # _ \<Rightarrow> (case first of None \<Rightarrow> Inl TypeError | Some v \<Rightarrow> get_start_vertices l2m v))"

definition trailing_of ::
  "'a DirectedEdgeGetter \<Rightarrow> 'a list option list \<Rightarrow> error + 'a list set" where
  "trailing_of m2t path =
     (case path of
        [] \<Rightarrow> Inl IndexError
      | _ # _ \<Rightarrow> (case last path of None \<Rightarrow> Inl TypeError | Some v \<Rightarrow> get_end_vertices m2t v))"

text \<open>\<^verbatim>\<open>get_random_sequence\<close>\<close>

definition get_random_sequence ::
  "'a list set_order \<Rightarrow> 'a SequenceCreator \<Rightarrow> rng \<Rightarrow> error + ('a list \<times> rng)" where
  "get_random_sequence order sc r =
     (if sc_is_disconnected sc then Inl (ValueError NgramsDisconnected)
      else
        (case sc_path_fns sc of
           None \<Rightarrow> Inl AttributeError
         | Some fns \<Rightarrow>
        (case get_random_path_fn order fns r of
           Inl e \<Rightarrow> Inl e
         | Inr (random_path, r1) \<Rightarrow>
        (case leading_of (leading_to_middle_dedge sc) random_path of
           Inl e \<Rightarrow> Inl e
         | Inr leadings \<Rightarrow>
        (case choice r1 (order leadings) of
           Inl e \<Rightarrow> Inl e
         | Inr (ngram_leading, r2) \<Rightarrow>
        (case trailing_of (middle_to_trailing_dedge sc) random_path of
           Inl e \<Rightarrow> Inl e
         | Inr trailings \<Rightarrow>
        (case choice r2 (order trailings) of
           Inl e \<Rightarrow> Inl e
         | Inr (ngram_trailing, r3) \<Rightarrow>
        (case join_sequence ngram_leading random_path ngram_trailing of
           Inl e \<Rightarrow> Inl e
         | Inr s \<Rightarrow> Inr (s, r3)))))))))"

text \<open>A \<^verbatim>\<open>for\<close> loop whose body yields: the yields of all rounds, in order.\<close>

fun for_yield :: "'x list \<Rightarrow> ('x \<Rightarrow> error + 'y list) \<Rightarrow> error + 'y list" where
  "for_yield [] body = Inr []"
| "for_yield (x # xs) body =
     (case body x of
        Inl e \<Rightarrow> Inl e
      | Inr ys \<Rightarrow> (case for_yield xs body of Inl e \<Rightarrow> Inl e | Inr zs \<Rightarrow> Inr (ys @ zs)))"

text \<open>
  \<^verbatim>\<open>get_all_sequences\<close>, iterated to its end: the list of the yielded sequences, or
  the exception that the iteration raises.
\<close>

definition get_all_sequences ::
  "'a list set_order \<Rightarrow> 'a SequenceCreator \<Rightarrow> error + 'a list list" where
  "get_all_sequences order sc =
     (if sc_is_disconnected sc then Inl (ValueError NgramsDisconnected)
      else
        (case sc_path_fns sc of
           None \<Rightarrow> Inl AttributeError
         | Some fns \<Rightarrow>
        (case get_all_paths_fn order fns of
           Inl e \<Rightarrow> Inl e
         | Inr paths \<Rightarrow>
             for_yield paths (\<lambda>path.
               (case leading_of (leading_to_middle_dedge sc) path of
                  Inl e \<Rightarrow> Inl e
                | Inr leadings \<Rightarrow>
                    for_yield (order leadings) (\<lambda>ngram_leading.
                      (case trailing_of (middle_to_trailing_dedge sc) path of
                         Inl e \<Rightarrow> Inl e
                       | Inr trailings \<Rightarrow>
                           for_yield (order trailings) (\<lambda>ngram_trailing.
                             (case join_sequence ngram_leading path ngram_trailing of
                                Inl e \<Rightarrow> Inl e
                              | Inr s \<Rightarrow> Inr [s])))))))))"

section \<open>A test double for edge getters\<close>

text \<open>
  \<^verbatim>\<open>DirectedGraph\<close> of \<^verbatim>\<open>tests/test_graph.py\<close>: an edge getter backed by two
  dictionaries of sets, filled by \<^verbatim>\<open>add_edge\<close>; here it is given by its edge list.
  \<^verbatim>\<open>self_loops\<close> is the fixture \<^verbatim>\<open>dg2\<close> of that test.
\<close>

definition DirectedGraph :: "('v \<times> 'v) list \<Rightarrow> 'v dedge" where
  "DirectedGraph edges =
     \<lparr>dedge_get_end_vertices = (\<lambda>u. Inr (set (map snd (filter (\<lambda>e. fst e = u) edges)))),
      dedge_get_start_vertices = (\<lambda>v. Inr (set (map fst (filter (\<lambda>e. snd e = v) edges))))\<rparr>"

definition self_loops :: "nat dedge" where
  "self_loops = DirectedGraph [(1, 2), (2, 2), (2, 3), (3, 3), (3, 2)]"

section \<open>Specification notions\<close>

definition order_ok :: "'v set_order \<Rightarrow> bool" where
  "order_ok order \<longleftrightarrow> (\<forall>S. finite S \<longrightarrow> set (order S) = S \<and> distinct (order S))"

definition succs :: "'v dedge \<Rightarrow> 'v \<Rightarrow> 'v set" where
  "succs dg u = (case dedge_get_end_vertices dg u of Inl e \<Rightarrow> {} | Inr S \<Rightarrow> S)"

definition preds :: "'v dedge \<Rightarrow> 'v \<Rightarrow> 'v set" where
  "preds dg v = (case dedge_get_start_vertices dg v of Inl e \<Rightarrow> {} | Inr S \<Rightarrow> S)"

definition dedge_ok :: "'v set \<Rightarrow> 'v dedge \<Rightarrow> bool" where
  "dedge_ok U dg \<longleftrightarrow>
     (\<forall>u \<in> U. \<exists>S. dedge_get_end_vertices dg u = Inr S \<and> finite S \<and> S \<subseteq> U) \<and>
     (\<forall>v \<in> U. \<exists>S. dedge_get_start_vertices dg v = Inr S \<and> finite S \<and> S \<subseteq> U) \<and>
     (\<forall>u \<in> U. \<forall>v \<in> U. v \<in> succs dg u \<longleftrightarrow> u \<in> preds dg v)"

definition valid_path :: "'v dedge \<Rightarrow> 'v list \<Rightarrow> 'v list \<Rightarrow> int \<Rightarrow> 'v list \<Rightarrow> bool" where
  "valid_path dg start_vs end_vs n p \<longleftrightarrow>
     int (length p) = n \<and> p \<noteq> [] \<and> hd p \<in> set start_vs \<and> last p \<in> set end_vs \<and>
     successively (\<lambda>u v. v \<in> succs dg u) p"

fun fwd :: "'v dedge \<Rightarrow> 'v set \<Rightarrow> nat \<Rightarrow> 'v set" where
  "fwd dg A 0 = A"
| "fwd dg A (Suc k) = (\<Union>u \<in> fwd dg A k. succs dg u)"

fun bwd :: "'v dedge \<Rightarrow> 'v set \<Rightarrow> nat \<Rightarrow> 'v set" where
  "bwd dg Z 0 = Z"
| "bwd dg Z (Suc k) = (\<Union>v \<in> bwd dg Z k. preds dg v)"

definition reach :: "'v dedge \<Rightarrow> 'v set \<Rightarrow> 'v set \<Rightarrow> nat \<Rightarrow> nat \<Rightarrow> 'v set" where
  "reach dg A Z n j = fwd dg A j \<inter> bwd dg Z (n - 1 - j)"

definition meet_post ::
  "'v dedge \<Rightarrow> 'v set \<Rightarrow> 'v set \<Rightarrow> nat \<Rightarrow> error + ('v set list \<times> int \<times> int \<times> bool) \<Rightarrow> bool" where
  "meet_post dg A Z n res \<longleftrightarrow>
     (case res of
        Inl e \<Rightarrow> False
      | Inr (ss', e', l', stop) \<Rightarrow>
          length ss' = n
          \<and> (stop \<longrightarrow> (\<exists>k < n. reach dg A Z n k = {}))
          \<and> (\<not> stop \<longrightarrow> (\<exists>a'. e' = int a' \<and> l' = int (Suc a') \<and> Suc a' < n
                 \<and> (\<forall>j. j \<le> a' \<longrightarrow> ss' ! j = fwd dg A j)
                 \<and> (\<forall>j. Suc a' \<le> j \<and> j < n \<longrightarrow> ss' ! j = bwd dg Z (n - 1 - j)))))"

definition later_post ::
  "'v dedge \<Rightarrow> 'v set \<Rightarrow> 'v set \<Rightarrow> nat \<Rightarrow> nat \<Rightarrow> error + ('v set list \<times> bool) \<Rightarrow> bool" where
  "later_post dg A Z n a res \<longleftrightarrow>
     (case res of
        Inl e \<Rightarrow> False
      | Inr (ss', stop) \<Rightarrow>
          length ss' = n
          \<and> (stop \<longrightarrow> (\<exists>k < n. reach dg A Z n k = {}))
          \<and> (\<not> stop \<longrightarrow> (\<forall>j. j \<le> a \<longrightarrow> ss' ! j = fwd dg A j)
                 \<and> (\<forall>j. a < j \<and> j < n \<longrightarrow> ss' ! j = reach dg A Z n j)))"

definition earlier_post ::
  "'v dedge \<Rightarrow> 'v set \<Rightarrow> 'v set \<Rightarrow> nat \<Rightarrow> nat \<Rightarrow> error + ('v set list \<times> bool) \<Rightarrow> bool" where
  "earlier_post dg A Z n i res \<longleftrightarrow>
     (case res of
        Inl e \<Rightarrow> False
      | Inr (ss', stop) \<Rightarrow>
          length ss' = n
          \<and> (stop \<longrightarrow> (\<exists>k < n. reach dg A Z n k = {}))
          \<and> (\<not> stop \<longrightarrow> (\<forall>j. j < n \<longrightarrow> ss' ! j = reach dg A Z n j)
                 \<and> (0 < i \<longrightarrow> reach dg A Z n 0 \<noteq> {})))"

definition build_post ::
  "'v GraphPathFinder \<Rightarrow> nat \<Rightarrow> error + 'v GraphPathFinder \<Rightarrow> bool" where
  "build_post g n res \<longleftrightarrow>
     (case res of
        Inl e \<Rightarrow> False
      | Inr g' \<Rightarrow>
          start_vertices g' = start_vertices g \<and> end_vertices g' = end_vertices g
          \<and> num_vertices g' = num_vertices g \<and> dedge g' = dedge g
          \<and> length (step_sets g') = n
          \<and> (is_disconnected g' \<longrightarrow>
                (\<exists>k < n. reach (dedge g) (set (start_vertices g)) (set (end_vertices g)) n k = {}))
          \<and> (\<not> is_disconnected g' \<longrightarrow>
                (\<forall>j. j < n \<longrightarrow> step_sets g' ! j =
                    reach (dedge g) (set (start_vertices g)) (set (end_vertices g)) n j)
                \<and> reach (dedge g) (set (start_vertices g)) (set (end_vertices g)) n 0 \<noteq> {}))"

fun completions :: "'v set_order \<Rightarrow> 'v GraphPathFinder \<Rightarrow> nat \<Rightarrow> nat \<Rightarrow> 'v \<Rightarrow> 'v list list" where
  "completions order g 0 k v = [[v]]"
| "completions order g (Suc d) k v =
     concat (map (\<lambda>w. map ((#) v) (completions order g d (Suc k) w))
               (rev (order (succs (dedge g) v \<inter> step_sets g ! Suc k))))"

definition slot_list :: "'v list option \<Rightarrow> 'v list" where
  "slot_list slot = (case slot of None \<Rightarrow> [] | Some vs \<Rightarrow> vs)"

definition level ::
  "'v set_order \<Rightarrow> 'v GraphPathFinder \<Rightarrow> nat \<Rightarrow> 'v option list \<Rightarrow> nat \<Rightarrow> 'v list
     \<Rightarrow> 'v option list list" where
  "level order g n path k vs =
     concat (map (\<lambda>w. map (\<lambda>c. take k path @ map Some c) (completions order g (n - 1 - k) k w))
               (rev vs))"

fun remaining ::
  "'v set_order \<Rightarrow> 'v GraphPathFinder \<Rightarrow> nat \<Rightarrow> 'v option list \<Rightarrow> 'v list option list \<Rightarrow> nat
     \<Rightarrow> 'v option list list" where
  "remaining order g n path sv 0 = level order g n path 0 (slot_list (sv ! 0))"
| "remaining order g n path sv (Suc k) =
     level order g n path (Suc k) (slot_list (sv ! Suc k)) @ remaining order g n path sv k"

definition constructed :: "'v set \<Rightarrow> 'v GraphPathFinder \<Rightarrow> nat \<Rightarrow> bool" where
  "constructed U g n \<longleftrightarrow>
     dedge_ok U (dedge g) \<and> set (start_vertices g) \<subseteq> U \<and> set (end_vertices g) \<subseteq> U
     \<and> num_vertices g = int n \<and> 2 \<le> n \<and> length (step_sets g) = n
     \<and> (is_disconnected g \<longrightarrow>
           (\<exists>k < n. reach (dedge g) (set (start_vertices g)) (set (end_vertices g)) n k = {}))
     \<and> (\<not> is_disconnected g \<longrightarrow>
           (\<forall>j. j < n \<longrightarrow> step_sets g ! j =
               reach (dedge g) (set (start_vertices g)) (set (end_vertices g)) n j)
           \<and> reach (dedge g) (set (start_vertices g)) (set (end_vertices g)) n 0 \<noteq> {})"

fun follows :: "'v GraphPathFinder \<Rightarrow> nat \<Rightarrow> 'v \<Rightarrow> 'v list \<Rightarrow> bool" where
  "follows g k v [] = True"
| "follows g k v (w # ws) =
     (w \<in> succs (dedge g) v \<and> w \<in> step_sets g ! Suc k \<and> follows g (Suc k) w ws)"

definition all_paths_spec :: "'v set_order \<Rightarrow> 'v GraphPathFinder \<Rightarrow> nat \<Rightarrow> 'v list list" where
  "all_paths_spec order g n =
     concat (map (completions order g (n - 1) 0) (rev (order (step_sets g ! 0))))"

definition filled :: "'v GraphPathFinder \<Rightarrow> nat \<Rightarrow> 'v option list \<Rightarrow> nat \<Rightarrow> nat \<Rightarrow> bool" where
  "filled g n path a b \<longleftrightarrow>
     length path = n \<and> a \<le> b \<and> b < n
     \<and> (\<forall>j. a \<le> j \<and> j \<le> b \<longrightarrow> (\<exists>v. path ! j = Some v \<and> v \<in> step_sets g ! j))
     \<and> (\<forall>j. a \<le> j \<and> j < b \<longrightarrow> the (path ! Suc j) \<in> succs (dedge g) (the (path ! j)))"

definition overlaps :: "'a DirectedEdgeGetter \<Rightarrow> 'a list \<Rightarrow> 'a list \<Rightarrow> bool" where
  "overlaps d s e \<longleftrightarrow> slice_from (- len_overlap d) s = slice_to (len_overlap d) e"

definition middle_after_leading ::
  "'a DirectedEdgeGetter \<Rightarrow> 'a list list \<Rightarrow> 'a list list \<Rightarrow> 'a list set" where
  "middle_after_leading l2m leading middle =
     {m \<in> set middle. \<exists>l \<in> set leading.
        (case get_end_vertices l2m l of Inl e \<Rightarrow> False | Inr S \<Rightarrow> m \<in> S)}"

definition middle_before_trailing ::
  "'a DirectedEdgeGetter \<Rightarrow> 'a list list \<Rightarrow> 'a list list \<Rightarrow> 'a list set" where
  "middle_before_trailing m2t middle trailing =
     {m \<in> set middle. \<exists>t \<in> set trailing.
        (case get_start_vertices m2t t of Inl e \<Rightarrow> False | Inr S \<Rightarrow> m \<in> S)}"

definition glue :: "'a list \<Rightarrow> 'a list list \<Rightarrow> 'a list" where
  "glue first others =
     first @ concat (map (\<lambda>(prev, v). slice_from (min (py_len prev) (py_len v) - 1) v)
                       (zip (first # others) others))"

definition sequences_of ::
  "'a DirectedEdgeGetter \<Rightarrow> 'a DirectedEdgeGetter \<Rightarrow> 'a list list \<Rightarrow> 'a list list
     \<Rightarrow> 'a list list set \<Rightarrow> 'a list set" where
  "sequences_of l2m m2t leading trailing paths =
     {s. \<exists>p \<in> paths. \<exists>l \<in> set leading. \<exists>t \<in> set trailing.
           overlaps l2m l (hd p) \<and> overlaps m2t (last p) t \<and> s = glue l (p @ [t])}"

definition path_sequences ::
  "'a list set_order \<Rightarrow> 'a DirectedEdgeGetter \<Rightarrow> 'a DirectedEdgeGetter \<Rightarrow> 'a list list
     \<Rightarrow> 'a list list \<Rightarrow> 'a list list \<Rightarrow> 'a list list" where
  "path_sequences order l2m m2t leading trailing p =
     concat (map (\<lambda>l. concat (map (\<lambda>t. [glue l (p @ [t])])
                                (order {t \<in> set trailing. overlaps m2t (last p) t})))
               (order {l \<in> set leading. overlaps l2m l (hd p)}))"

definition ex_leading :: "string list" where "ex_leading = [''ax'', ''bx'', ''aa'']"

definition ex_middle :: "string list" where
  "ex_middle = [''xx'', ''xy'', ''yx'', ''yy'', ''zz'', ''xz'']"

definition ex_trailing :: "string list" where "ex_trailing = [''x1'', ''x2'', ''11'']"

definition ex_sequences :: "string set" where
  "ex_sequences = {''axxx1'', ''bxxx1'', ''axyx1'', ''bxyx1'',
                   ''axxx2'', ''bxxx2'', ''axyx2'', ''bxyx2''}"

section \<open>Properties of the overlap index\<close>

lemma setdefault_add_get:
  "dict_get (setdefault_add m k ng) k' = (if k' = k then insert ng (dict_get m k) else dict_get m k')"
  by (simp add: setdefault_add_def dict_get_def)

lemma end_overlap_loop_get:
  "end_overlap_loop m ngs lo le = Inr r \<Longrightarrow>
     dict_get r k = dict_get m k \<union> {ng \<in> set ngs. slice_to lo ng = k}
     \<and> (\<forall>ng \<in> set ngs. py_len ng = le)"
proof (induction ngs arbitrary: m)
  case Nil
  then show ?case by simp
next
  case (Cons ng ngs)
  from Cons.prems have len: "py_len ng = le"
    by (simp split: if_splits)
  with Cons.prems have "end_overlap_loop (setdefault_add m (slice_to lo ng) ng) ngs lo le = Inr r"
    by simp
  from Cons.IH [OF this] len show ?case
    by (auto simp: setdefault_add_get)
qed

lemma start_overlap_loop_get:
  "start_overlap_loop m ngs lo ls = Inr r \<Longrightarrow>
     dict_get r k = dict_get m k \<union> {ng \<in> set ngs. slice_from (- lo) ng = k}
     \<and> (\<forall>ng \<in> set ngs. py_len ng = ls)"
proof (induction ngs arbitrary: m)
  case Nil
  then show ?case by simp
next
  case (Cons ng ngs)
  from Cons.prems have len: "py_len ng = ls"
    by (simp split: if_splits)
  with Cons.prems have "start_overlap_loop (setdefault_add m (slice_from (- lo) ng) ng) ngs lo ls = Inr r"
    by simp
  from Cons.IH [OF this] len show ?case
    by (auto simp: setdefault_add_get)
qed

lemma dict_get_empty: "dict_get Map.empty k = {}"
  by (simp add: dict_get_def)

text \<open>What a successfully built index holds.\<close>

lemma DirectedEdgeGetter_init_Inr:
  assumes "DirectedEdgeGetter_init S E = Inr d"
  shows "S \<noteq> []" and "E \<noteq> []"
    and "len_start d = py_len (hd S)" and "len_end d = py_len (hd E)"
    and "2 \<le> len_start d" and "2 \<le> len_end d"
    and "len_overlap d = min (len_start d) (len_end d) - 1"
    and "\<forall>s \<in> set S. py_len s = len_start d"
    and "\<forall>e \<in> set E. py_len e = len_end d"
    and "\<And>k. dict_get (start_overlap_dict d) k = {s \<in> set S. slice_from (- len_overlap d) s = k}"
    and "\<And>k. dict_get (end_overlap_dict d) k = {e \<in> set E. slice_to (len_overlap d) e = k}"
proof -
  let ?ls = "py_len (hd S)" and ?le = "py_len (hd E)"
  let ?lo = "min ?ls ?le - 1"
  from assms have ne: "S \<noteq> []" "E \<noteq> []" and big: "2 \<le> ?ls" "2 \<le> ?le"
    by (auto simp: DirectedEdgeGetter_init_def Let_def split: if_splits)
  from assms ne big obtain sd ed where
    sd: "get_start_overlap_dict S ?lo ?ls = Inr sd" and
    ed: "get_end_overlap_dict E ?lo ?le = Inr ed" and
    d: "d = \<lparr>len_start = ?ls, len_end = ?le, len_overlap = ?lo,
             start_overlap_dict = sd, end_overlap_dict = ed\<rparr>"
    by (auto simp: DirectedEdgeGetter_init_def Let_def split: if_splits sum.splits)
  show "S \<noteq> []" "E \<noteq> []" by (fact ne)+
  show "len_start d = py_len (hd S)" "len_end d = py_len (hd E)" by (simp_all add: d)
  show "2 \<le> len_start d" "2 \<le> len_end d" using big by (simp_all add: d)
  show "len_overlap d = min (len_start d) (len_end d) - 1" by (simp add: d)
  show "\<forall>s \<in> set S. py_len s = len_start d"
    using start_overlap_loop_get [OF sd [unfolded get_start_overlap_dict_def]] by (simp add: d)
  show "\<forall>e \<in> set E. py_len e = len_end d"
    using end_overlap_loop_get [OF ed [unfolded get_end_overlap_dict_def]] by (simp add: d)
  show "\<And>k. dict_get (start_overlap_dict d) k = {s \<in> set S. slice_from (- len_overlap d) s = k}"
    using start_overlap_loop_get [OF sd [unfolded get_start_overlap_dict_def]]
    by (simp add: d dict_get_empty)
  show "\<And>k. dict_get (end_overlap_dict d) k = {e \<in> set E. slice_to (len_overlap d) e = k}"
    using end_overlap_loop_get [OF ed [unfolded get_end_overlap_dict_def]]
    by (simp add: d dict_get_empty)
qed

lemma get_end_vertices_pool:
  assumes "DirectedEdgeGetter_init S E = Inr d" and "s \<in> set S"
  shows "get_end_vertices d s =
           Inr {e \<in> set E. slice_to (len_overlap d) e = slice_from (- len_overlap d) s}"
  using DirectedEdgeGetter_init_Inr(8,11) [OF assms(1)] assms(2)
  by (simp add: get_end_vertices_def)

lemma get_start_vertices_pool:
  assumes "DirectedEdgeGetter_init S E = Inr d" and "e \<in> set E"
  shows "get_start_vertices d e =
           Inr {s \<in> set S. slice_from (- len_overlap d) s = slice_to (len_overlap d) e}"
  using DirectedEdgeGetter_init_Inr(9,10) [OF assms(1)] assms(2)
  by (simp add: get_start_vertices_def)

text \<open>
  C5. Index symmetry: for an index built from a start pool \<open>S\<close> and an end pool \<open>E\<close>, both
  lookups succeed on the pools' own n-grams, and \<open>e\<close> is among the end vertices of \<open>s\<close>
  exactly when \<open>s\<close> is among the start vertices of \<open>e\<close>.
\<close>

theorem index_symmetry:
  assumes "DirectedEdgeGetter_init S E = Inr d" and "s \<in> set S" and "e \<in> set E"
  shows "\<exists>es ss. get_end_vertices d s = Inr es \<and> get_start_vertices d e = Inr ss
           \<and> (e \<in> es \<longleftrightarrow> s \<in> ss)"
  using assms
  by (auto simp: get_end_vertices_pool [OF assms(1,2)] get_start_vertices_pool [OF assms(1,3)])

theorem index_symmetry_witness:
  "\<exists>d. DirectedEdgeGetter_init [''sdfg'', ''sdru'', ''werz''] [''fgx'', ''fgX'', ''rup''] = Inr d
     \<and> ''sdfg'' \<in> set [''sdfg'', ''sdru'', ''werz''] \<and> ''fgX'' \<in> set [''fgx'', ''fgX'', ''rup'']
     \<and> (\<exists>es ss. get_end_vertices d ''sdfg'' = Inr es \<and> get_start_vertices d ''fgX'' = Inr ss
           \<and> (''fgX'' \<in> es \<longleftrightarrow> ''sdfg'' \<in> ss))"
proof -
  obtain d where d: "DirectedEdgeGetter_init [''sdfg'', ''sdru'', ''werz''] [''fgx'', ''fgX'', ''rup''] = Inr d"
    by (auto simp: DirectedEdgeGetter_init_def get_start_overlap_dict_def get_end_overlap_dict_def
          py_len_def Let_def)
  have s: "''sdfg'' \<in> set [''sdfg'', ''sdru'', ''werz'']"
    and e: "''fgX'' \<in> set [''fgx'', ''fgX'', ''rup'']"
    by simp_all
  from index_symmetry [OF d s e] d s e show ?thesis by blast
qed

section \<open>Properties of the concatenation\<close>

lemma foldl_concat_step:
  "foldl (concat_step ngs) acc [1..<Suc k] =
     acc @ concat (map (\<lambda>i. slice_from (min (py_len (ngs ! (i - 1))) (py_len (ngs ! i)) - 1)
                                (ngs ! i)) [1..<Suc k])"
  by (induction k) (simp_all add: concat_step_def Let_def)

lemma adjacent_pairs_map:
  "map (\<lambda>i. h (ngs ! (i - 1)) (ngs ! i)) [1..<length ngs] =
     map (\<lambda>(p, v). h p v) (zip ngs (tl ngs))"
  by (rule nth_equalityI) (auto simp: nth_tl)

lemma concat_ngram_list_Cons:
  "concat_ngram_list (x # xs) =
     Inr (x @ concat (map (\<lambda>(prev, v). slice_from (min (py_len prev) (py_len v) - 1) v)
                        (zip (x # xs) xs)))"
proof -
  let ?ngs = "x # xs"
  have "foldl (concat_step ?ngs) x [1..<length ?ngs] =
      x @ concat (map (\<lambda>i. slice_from (min (py_len (?ngs ! (i - 1))) (py_len (?ngs ! i)) - 1)
                              (?ngs ! i)) [1..<length ?ngs])"
    using foldl_concat_step [of ?ngs x "length xs"] by simp
  also have "\<dots> = x @ concat (map (\<lambda>(prev, v). slice_from (min (py_len prev) (py_len v) - 1) v)
                                 (zip ?ngs (tl ?ngs)))"
    by (simp only: adjacent_pairs_map [of "\<lambda>p v. slice_from (min (py_len p) (py_len v) - 1) v"])
  finally show ?thesis
    by (simp add: concat_ngram_list_def)
qed

text \<open>
  C7. On a non-empty list the concatenation is the first n-gram followed, for every later
  n-gram \<open>v\<close> with predecessor \<open>prev\<close>, by the slice of \<open>v\<close> from index
  \<open>min (len prev) (len v) - 1\<close>; the three examples of the specification hold; and the
  overlap is not checked: \<open>ab\<close> and \<open>cd\<close> share nothing and still give \<open>abd\<close>.
\<close>

theorem concat_ngram_list_rule:
  "(ngs \<noteq> [] \<longrightarrow>
      concat_ngram_list ngs =
        Inr (hd ngs @ concat (map (\<lambda>(prev, v). slice_from (min (py_len prev) (py_len v) - 1) v)
                                (zip ngs (tl ngs)))))
   \<and> concat_ngram_list [''ax'', ''xx'', ''x1''] = Inr ''axx1''
   \<and> concat_ngram_list [''abc'', ''bcde'', ''ef''] = Inr ''abcdef''
   \<and> concat_ngram_list [''ax'', ''xzyzyzyx'', ''x1''] = Inr ''axzyzyzyx1''
   \<and> concat_ngram_list [''ab'', ''cd''] = Inr ''abd''"
proof (intro conjI impI)
  assume "ngs \<noteq> []"
  then obtain x xs where ngs: "ngs = x # xs" by (cases ngs) auto
  show "concat_ngram_list ngs =
        Inr (hd ngs @ concat (map (\<lambda>(prev, v). slice_from (min (py_len prev) (py_len v) - 1) v)
                                (zip ngs (tl ngs))))"
    unfolding ngs by (simp add: concat_ngram_list_Cons)
qed (simp_all add: concat_ngram_list_Cons slice_from_def py_len_def)

theorem concat_ngram_list_rule_witness:
  "[''abc'', ''bcde'', ''ef''] \<noteq> []
   \<and> concat_ngram_list [''abc'', ''bcde'', ''ef''] =
       Inr (hd [''abc'', ''bcde'', ''ef''] @
            concat (map (\<lambda>(prev, v). slice_from (min (py_len prev) (py_len v) - 1) v)
                      (zip [''abc'', ''bcde'', ''ef''] (tl [''abc'', ''bcde'', ''ef'']))))
   \<and> concat_ngram_list [''abc'', ''bcde'', ''ef''] = Inr ''abcdef''"
  using concat_ngram_list_rule [of "[''abc'', ''bcde'', ''ef'']"] by blast

section \<open>Correctness of the path finder\<close>

lemma dedge_ok_succs:
  assumes "dedge_ok U dg" "u \<in> U"
  shows "dedge_get_end_vertices dg u = Inr (succs dg u)" "finite (succs dg u)" "succs dg u \<subseteq> U"
proof -
  from assms obtain S where "dedge_get_end_vertices dg u = Inr S" "finite S" "S \<subseteq> U"
    unfolding dedge_ok_def by blast
  then show "dedge_get_end_vertices dg u = Inr (succs dg u)" "finite (succs dg u)" "succs dg u \<subseteq> U"
    by (simp_all add: succs_def)
qed

lemma dedge_ok_preds:
  assumes "dedge_ok U dg" "v \<in> U"
  shows "dedge_get_start_vertices dg v = Inr (preds dg v)" "finite (preds dg v)" "preds dg v \<subseteq> U"
proof -
  from assms obtain S where "dedge_get_start_vertices dg v = Inr S" "finite S" "S \<subseteq> U"
    unfolding dedge_ok_def by blast
  then show "dedge_get_start_vertices dg v = Inr (preds dg v)" "finite (preds dg v)" "preds dg v \<subseteq> U"
    by (simp_all add: preds_def)
qed

lemma dedge_ok_sym:
  "dedge_ok U dg \<Longrightarrow> u \<in> U \<Longrightarrow> v \<in> U \<Longrightarrow> v \<in> succs dg u \<longleftrightarrow> u \<in> preds dg v"
  by (simp add: dedge_ok_def)

lemma expand_Inr:
  assumes "\<And>x. x \<in> set xs \<Longrightarrow> f x = Inr (h x)"
  shows "expand xs f = Inr (\<Union>x \<in> set xs. h x)"
  using assms by (induction xs) simp_all

lemma expand_succs:
  assumes "dedge_ok U dg" "order_ok order" "finite S" "S \<subseteq> U"
  shows "expand (order S) (dedge_get_end_vertices dg) = Inr (\<Union>u \<in> S. succs dg u)"
proof -
  have s: "set (order S) = S" using assms(2,3) by (simp add: order_ok_def)
  have "expand (order S) (dedge_get_end_vertices dg) = Inr (\<Union>u \<in> set (order S). succs dg u)"
  proof (rule expand_Inr)
    fix x assume "x \<in> set (order S)"
    then have "x \<in> U" using s assms(4) by auto
    then show "dedge_get_end_vertices dg x = Inr (succs dg x)"
      by (rule dedge_ok_succs(1) [OF assms(1)])
  qed
  then show ?thesis by (simp add: s)
qed

lemma expand_preds:
  assumes "dedge_ok U dg" "order_ok order" "finite S" "S \<subseteq> U"
  shows "expand (order S) (dedge_get_start_vertices dg) = Inr (\<Union>v \<in> S. preds dg v)"
proof -
  have s: "set (order S) = S" using assms(2,3) by (simp add: order_ok_def)
  have "expand (order S) (dedge_get_start_vertices dg) = Inr (\<Union>v \<in> set (order S). preds dg v)"
  proof (rule expand_Inr)
    fix x assume "x \<in> set (order S)"
    then have "x \<in> U" using s assms(4) by auto
    then show "dedge_get_start_vertices dg x = Inr (preds dg x)"
      by (rule dedge_ok_preds(1) [OF assms(1)])
  qed
  then show ?thesis by (simp add: s)
qed

lemma img_succs_ok:
  assumes "dedge_ok U dg" "finite S" "S \<subseteq> U"
  shows "finite (\<Union>u \<in> S. succs dg u)" "(\<Union>u \<in> S. succs dg u) \<subseteq> U"
proof -
  have "\<And>u. u \<in> S \<Longrightarrow> finite (succs dg u) \<and> succs dg u \<subseteq> U"
    using assms(3) dedge_ok_succs(2,3) [OF assms(1)] by auto
  then show "finite (\<Union>u \<in> S. succs dg u)" "(\<Union>u \<in> S. succs dg u) \<subseteq> U"
    using assms(2) by auto
qed

lemma img_preds_ok:
  assumes "dedge_ok U dg" "finite S" "S \<subseteq> U"
  shows "finite (\<Union>v \<in> S. preds dg v)" "(\<Union>v \<in> S. preds dg v) \<subseteq> U"
proof -
  have "\<And>v. v \<in> S \<Longrightarrow> finite (preds dg v) \<and> preds dg v \<subseteq> U"
    using assms(3) dedge_ok_preds(2,3) [OF assms(1)] by auto
  then show "finite (\<Union>v \<in> S. preds dg v)" "(\<Union>v \<in> S. preds dg v) \<subseteq> U"
    using assms(2) by auto
qed

lemma fwd_ok:
  assumes "dedge_ok U dg" "finite A" "A \<subseteq> U"
  shows "finite (fwd dg A k) \<and> fwd dg A k \<subseteq> U"
proof (induction k)
  case 0
  then show ?case using assms by simp
next
  case (Suc k)
  then show ?case using img_succs_ok [OF assms(1), of "fwd dg A k"] by simp
qed

lemma bwd_ok:
  assumes "dedge_ok U dg" "finite Z" "Z \<subseteq> U"
  shows "finite (bwd dg Z k) \<and> bwd dg Z k \<subseteq> U"
proof (induction k)
  case 0
  then show ?case using assms by simp
next
  case (Suc k)
  then show ?case using img_preds_ok [OF assms(1), of "bwd dg Z k"] by simp
qed

lemma reach_ok:
  assumes "dedge_ok U dg" "finite A" "A \<subseteq> U" "finite Z" "Z \<subseteq> U"
  shows "finite (reach dg A Z n j)" "reach dg A Z n j \<subseteq> U"
  using fwd_ok [OF assms(1,2,3), of j] by (auto simp: reach_def)

lemma bwd_pred_step: "Suc j < n \<Longrightarrow> bwd dg Z (n - 1 - j) = (\<Union>v \<in> bwd dg Z (n - 1 - Suc j). preds dg v)"
proof -
  assume "Suc j < n"
  then have "n - 1 - j = Suc (n - 1 - Suc j)" by simp
  then show ?thesis by (simp only: bwd.simps)
qed

lemma reach_Suc_from_fwd:
  "bwd dg Z (n - 1 - Suc j) \<inter> (\<Union>u \<in> fwd dg A j. succs dg u) = reach dg A Z n (Suc j)"
  by (auto simp: reach_def)

lemma reach_Suc_from_reach:
  assumes "dedge_ok U dg" "finite A" "A \<subseteq> U" "finite Z" "Z \<subseteq> U" "Suc j < n"
  shows "bwd dg Z (n - 1 - Suc j) \<inter> (\<Union>u \<in> reach dg A Z n j. succs dg u) = reach dg A Z n (Suc j)"
proof (rule set_eqI, rule iffI)
  fix v assume "v \<in> bwd dg Z (n - 1 - Suc j) \<inter> (\<Union>u \<in> reach dg A Z n j. succs dg u)"
  then show "v \<in> reach dg A Z n (Suc j)" by (auto simp: reach_def)
next
  fix v assume "v \<in> reach dg A Z n (Suc j)"
  then have vb: "v \<in> bwd dg Z (n - 1 - Suc j)" and "v \<in> fwd dg A (Suc j)"
    by (simp_all add: reach_def)
  then obtain u where u: "u \<in> fwd dg A j" "v \<in> succs dg u" by auto
  have uU: "u \<in> U" using u(1) fwd_ok [OF assms(1,2,3), of j] by auto
  have vU: "v \<in> U" using vb bwd_ok [OF assms(1,4,5), of "n - 1 - Suc j"] by auto
  have "u \<in> preds dg v" using dedge_ok_sym [OF assms(1) uU vU] u(2) by simp
  then have "u \<in> bwd dg Z (n - 1 - j)"
    unfolding bwd_pred_step [OF assms(6)] using vb by blast
  then have "u \<in> reach dg A Z n j" using u(1) by (simp add: reach_def)
  then show "v \<in> bwd dg Z (n - 1 - Suc j) \<inter> (\<Union>u \<in> reach dg A Z n j. succs dg u)"
    using vb u(2) by blast
qed

lemma reach_pred_from_reach:
  assumes "dedge_ok U dg" "finite A" "A \<subseteq> U" "finite Z" "Z \<subseteq> U" "Suc j < n"
  shows "fwd dg A j \<inter> (\<Union>v \<in> reach dg A Z n (Suc j). preds dg v) = reach dg A Z n j"
proof (rule set_eqI, rule iffI)
  fix u assume "u \<in> fwd dg A j \<inter> (\<Union>v \<in> reach dg A Z n (Suc j). preds dg v)"
  then obtain v where uf: "u \<in> fwd dg A j" and v: "v \<in> reach dg A Z n (Suc j)" "u \<in> preds dg v"
    by auto
  from v(1) have "v \<in> bwd dg Z (n - 1 - Suc j)" by (simp add: reach_def)
  with v(2) have "u \<in> bwd dg Z (n - 1 - j)"
    unfolding bwd_pred_step [OF assms(6)] by blast
  with uf show "u \<in> reach dg A Z n j" by (simp add: reach_def)
next
  fix u assume "u \<in> reach dg A Z n j"
  then have uf: "u \<in> fwd dg A j" and "u \<in> bwd dg Z (n - 1 - j)"
    by (simp_all add: reach_def)
  then obtain v where v: "v \<in> bwd dg Z (n - 1 - Suc j)" "u \<in> preds dg v"
    unfolding bwd_pred_step [OF assms(6)] by blast
  have uU: "u \<in> U" using uf fwd_ok [OF assms(1,2,3), of j] by auto
  have vU: "v \<in> U" using v(1) bwd_ok [OF assms(1,4,5), of "n - 1 - Suc j"] by auto
  have "v \<in> succs dg u" using dedge_ok_sym [OF assms(1) uU vU] v(2) by simp
  then have "v \<in> fwd dg A (Suc j)" using uf by auto
  then have "v \<in> reach dg A Z n (Suc j)" using v(1) by (simp add: reach_def)
  then show "u \<in> fwd dg A j \<inter> (\<Union>v \<in> reach dg A Z n (Suc j). preds dg v)"
    using uf v(2) by blast
qed

lemma meet_loop_correct:
  assumes ok: "dedge_ok U dg" "order_ok order" "finite A" "A \<subseteq> U" "finite Z" "Z \<subseteq> U"
    and inv: "length ss = n" "a < b" "b < n"
      "\<forall>j. j \<le> a \<longrightarrow> ss ! j = fwd dg A j"
      "\<forall>j. b \<le> j \<and> j < n \<longrightarrow> ss ! j = bwd dg Z (n - 1 - j)"
  shows "meet_post dg A Z n (meet_loop order dg ss (int a) (int b))"
  using inv
proof (induction "b - a" arbitrary: a b ss rule: less_induct)
  case less
  note len = \<open>length ss = n\<close> and ab = \<open>a < b\<close> and bn = \<open>b < n\<close>
    and F = \<open>\<forall>j. j \<le> a \<longrightarrow> ss ! j = fwd dg A j\<close>
    and B = \<open>\<forall>j. b \<le> j \<and> j < n \<longrightarrow> ss ! j = bwd dg Z (n - 1 - j)\<close>
  show ?case
  proof (cases "Suc a < b")
    case False
    with ab have "Suc a = b" by simp
    moreover have "meet_loop order dg ss (int a) (int b) = Inr (ss, int a, int b, False)"
      using False by (subst meet_loop.simps) simp
    ultimately show ?thesis using len bn F B by (auto simp: meet_post_def)
  next
    case True
    have es: "ss ! a = fwd dg A a" using F by simp
    have ls: "ss ! b = bwd dg Z (n - 1 - b)" using B bn by simp
    have fin_e: "finite (fwd dg A a)" "fwd dg A a \<subseteq> U" using fwd_ok [OF ok(1,3,4)] by auto
    have fin_l: "finite (bwd dg Z (n - 1 - b))" "bwd dg Z (n - 1 - b) \<subseteq> U"
      using bwd_ok [OF ok(1,5,6)] by auto
    have exp_e: "expand (order (ss ! a)) (dedge_get_end_vertices dg) = Inr (fwd dg A (Suc a))"
      using expand_succs [OF ok(1,2) fin_e] by (simp add: es)
    have sb: "Suc (n - 1 - b) = n - 1 - (b - 1)" using ab bn by simp
    have exp_l: "expand (order (ss ! b)) (dedge_get_start_vertices dg) = Inr (bwd dg Z (n - 1 - (b - 1)))"
    proof -
      have "bwd dg Z (n - 1 - (b - 1)) = (\<Union>v \<in> bwd dg Z (n - 1 - b). preds dg v)"
        unfolding sb [symmetric] by simp
      then show ?thesis using expand_preds [OF ok(1,2) fin_l] by (simp only: ls)
    qed
    have fin_ne: "finite (fwd dg A (Suc a))" using fwd_ok [OF ok(1,3,4)] by blast
    have fin_nl: "finite (bwd dg Z (n - 1 - (b - 1)))" using bwd_ok [OF ok(1,5,6)] by blast
    have nat1: "nat (int a + 1) = Suc a" "nat (int b - 1) = b - 1"
      using ab by simp_all
    have nat2: "int (Suc a) = int a + 1" "int (b - 1) = int b - 1"
      using ab by simp_all
    show ?thesis
    proof (cases "card (ss ! a) < card (ss ! b)")
      case c: True
      let ?ss = "ss[Suc a := fwd dg A (Suc a)]"
      show ?thesis
      proof (cases "fwd dg A (Suc a) = {}")
        case e: True
        have "meet_loop order dg ss (int a) (int b) = Inr (?ss, int (Suc a), int b, True)"
          using True c e unfolding nat2 by (subst meet_loop.simps) (simp add: exp_e nat1 Let_def del: fwd.simps bwd.simps)
        moreover have "Suc a < n" using True bn by simp
        moreover have "reach dg A Z n (Suc a) = {}" using e by (simp add: reach_def del: fwd.simps)
        ultimately show ?thesis using len by (auto simp: meet_post_def simp del: fwd.simps)
      next
        case ne: False
        have step: "meet_loop order dg ss (int a) (int b) = meet_loop order dg ?ss (int (Suc a)) (int b)"
          using True c ne fin_ne unfolding nat2 by (subst meet_loop.simps) (simp add: exp_e nat1 Let_def del: fwd.simps bwd.simps)
        have "meet_post dg A Z n (meet_loop order dg ?ss (int (Suc a)) (int b))"
        proof (rule less.hyps)
          show "b - Suc a < b - a" using ab by simp
          show "length ?ss = n" using len by simp
          show "Suc a < b" by (fact True)
          show "b < n" by (fact bn)
          show "\<forall>j. j \<le> Suc a \<longrightarrow> ?ss ! j = fwd dg A j"
          proof (intro allI impI)
            fix j assume j: "j \<le> Suc a"
            show "?ss ! j = fwd dg A j"
            proof (cases "j = Suc a")
              case True
              then show ?thesis using len \<open>Suc a < b\<close> bn by simp
            next
              case False
              with j have "j \<le> a" by simp
              with F False show ?thesis by simp
            qed
          qed
          show "\<forall>j. b \<le> j \<and> j < n \<longrightarrow> ?ss ! j = bwd dg Z (n - 1 - j)"
            using B True by simp
        qed
        then show ?thesis by (simp only: step)
      qed
    next
      case c: False
      let ?ss = "ss[b - 1 := bwd dg Z (n - 1 - (b - 1))]"
      show ?thesis
      proof (cases "bwd dg Z (n - 1 - (b - 1)) = {}")
        case e: True
        have "meet_loop order dg ss (int a) (int b) = Inr (?ss, int a, int (b - 1), True)"
          using True c e unfolding nat2 by (subst meet_loop.simps) (simp add: exp_l nat1 Let_def del: fwd.simps bwd.simps)
        moreover have "b - 1 < n" using True bn by simp
        moreover have "reach dg A Z n (b - 1) = {}" using e by (simp add: reach_def)
        ultimately show ?thesis using len by (auto simp: meet_post_def)
      next
        case ne: False
        have step: "meet_loop order dg ss (int a) (int b) = meet_loop order dg ?ss (int a) (int (b - 1))"
          using True c ne fin_nl unfolding nat2 by (subst meet_loop.simps) (simp add: exp_l nat1 Let_def del: fwd.simps bwd.simps)
        have "meet_post dg A Z n (meet_loop order dg ?ss (int a) (int (b - 1)))"
        proof (rule less.hyps)
          show "b - 1 - a < b - a" using True by simp
          show "length ?ss = n" using len by simp
          show "a < b - 1" using True by simp
          show "b - 1 < n" using bn by simp
          show "\<forall>j. j \<le> a \<longrightarrow> ?ss ! j = fwd dg A j"
            using F True by simp
          show "\<forall>j. b - 1 \<le> j \<and> j < n \<longrightarrow> ?ss ! j = bwd dg Z (n - 1 - j)"
          proof (intro allI impI)
            fix j assume j: "b - 1 \<le> j \<and> j < n"
            show "?ss ! j = bwd dg Z (n - 1 - j)"
            proof (cases "j = b - 1")
              case True
              then show ?thesis using len j by simp
            next
              case False
              with j have "b \<le> j" by arith
              with B j False show ?thesis by simp
            qed
          qed
        qed
        then show ?thesis by (simp only: step)
      qed
    qed
  qed
qed

lemma filter_later_correct:
  assumes ok: "dedge_ok U dg" "order_ok order" "finite A" "A \<subseteq> U" "finite Z" "Z \<subseteq> U"
    and inv: "length ss = n" "a \<le> i" "i < n"
      "\<forall>j. j \<le> a \<longrightarrow> ss ! j = fwd dg A j"
      "\<forall>j. a < j \<and> j \<le> i \<longrightarrow> ss ! j = reach dg A Z n j"
      "\<forall>j. i < j \<and> j < n \<longrightarrow> ss ! j = bwd dg Z (n - 1 - j)"
  shows "later_post dg A Z n a (filter_later order dg [int i..int (n - 1) - 1] ss)"
  using inv
proof (induction "n - i" arbitrary: i ss rule: less_induct)
  case less
  note len = \<open>length ss = n\<close> and ai = \<open>a \<le> i\<close> and i_n = \<open>i < n\<close>
    and F = \<open>\<forall>j. j \<le> a \<longrightarrow> ss ! j = fwd dg A j\<close>
    and R = \<open>\<forall>j. a < j \<and> j \<le> i \<longrightarrow> ss ! j = reach dg A Z n j\<close>
    and B = \<open>\<forall>j. i < j \<and> j < n \<longrightarrow> ss ! j = bwd dg Z (n - 1 - j)\<close>
  show ?case
  proof (cases "Suc i < n")
    case False
    with i_n have "i = n - 1" by simp
    then have "[int i..int (n - 1) - 1] = []" by simp
    then have "filter_later order dg [int i..int (n - 1) - 1] ss = Inr (ss, False)" by simp
    moreover have "\<forall>j. a < j \<and> j < n \<longrightarrow> ss ! j = reach dg A Z n j"
      using R \<open>i = n - 1\<close> by auto
    ultimately show ?thesis using len F by (simp add: later_post_def)
  next
    case True
    have upto: "[int i..int (n - 1) - 1] = int i # [int (Suc i)..int (n - 1) - 1]"
    proof -
      have "int i \<le> int (n - 1) - 1" using True by simp
      from upto_rec1 [OF this] show ?thesis by (simp add: add.commute)
    qed
    have nxt: "ss ! Suc i = bwd dg Z (n - 1 - Suc i)" using B True by simp
    have new: "ss ! Suc i \<inter> (\<Union>u \<in> ss ! i. succs dg u) = reach dg A Z n (Suc i)"
      and cur: "finite (ss ! i)" "ss ! i \<subseteq> U"
    proof -
      show "ss ! Suc i \<inter> (\<Union>u \<in> ss ! i. succs dg u) = reach dg A Z n (Suc i)"
      proof (cases "i = a")
        case True
        then have "ss ! i = fwd dg A i" using F by simp
        then show ?thesis using reach_Suc_from_fwd [of dg Z n i A] nxt by simp
      next
        case False
        then have "ss ! i = reach dg A Z n i" using R ai by simp
        then show ?thesis using reach_Suc_from_reach [OF ok(1,3,4,5,6) True] nxt by simp
      qed
      show "finite (ss ! i)" "ss ! i \<subseteq> U"
      proof -
        have "ss ! i = fwd dg A i \<or> ss ! i = reach dg A Z n i"
          using F R ai by (cases "i = a") auto
        then show "finite (ss ! i)" "ss ! i \<subseteq> U"
          using fwd_ok [OF ok(1,3,4), of i] reach_ok [OF ok(1,3,4,5,6), of n i] by auto
      qed
    qed
    have upd: "expand_update (ss ! Suc i) (order (ss ! i)) (dedge_get_end_vertices dg)
                 = Inr (reach dg A Z n (Suc i))"
      using expand_succs [OF ok(1,2) cur] new by (simp add: expand_update_def)
    have fin: "finite (reach dg A Z n (Suc i))" by (rule reach_ok [OF ok(1,3,4,5,6)])
    have nat1: "nat (int i + 1) = Suc i" "nat (int i) = i" by simp_all
    let ?ss = "ss[Suc i := reach dg A Z n (Suc i)]"
    show ?thesis
    proof (cases "reach dg A Z n (Suc i) = {}")
      case e: True
      have "filter_later order dg [int i..int (n - 1) - 1] ss = Inr (?ss, True)"
        unfolding upto using e by (simp add: upd nat1)
      moreover have "\<exists>k < n. reach dg A Z n k = {}"
        using e True by (intro exI [of _ "Suc i"]) simp
      ultimately show ?thesis using len by (simp add: later_post_def)
    next
      case ne: False
      have step: "filter_later order dg [int i..int (n - 1) - 1] ss
                    = filter_later order dg [int (Suc i)..int (n - 1) - 1] ?ss"
        unfolding upto using ne fin by (simp add: upd nat1)
      have "later_post dg A Z n a (filter_later order dg [int (Suc i)..int (n - 1) - 1] ?ss)"
      proof (rule less.hyps)
        show "n - Suc i < n - i" using True by simp
        show "length ?ss = n" using len by simp
        show "a \<le> Suc i" using ai by simp
        show "Suc i < n" by (fact True)
        show "\<forall>j. j \<le> a \<longrightarrow> ?ss ! j = fwd dg A j" using F ai by simp
        show "\<forall>j. a < j \<and> j \<le> Suc i \<longrightarrow> ?ss ! j = reach dg A Z n j"
        proof (intro allI impI)
          fix j assume j: "a < j \<and> j \<le> Suc i"
          show "?ss ! j = reach dg A Z n j"
          proof (cases "j = Suc i")
            case True
            then show ?thesis using len \<open>Suc i < n\<close> by simp
          next
            case False
            with j have "j \<le> i" by simp
            with R j False show ?thesis by simp
          qed
        qed
        show "\<forall>j. Suc i < j \<and> j < n \<longrightarrow> ?ss ! j = bwd dg Z (n - 1 - j)" using B by simp
      qed
      then show ?thesis by (simp only: step)
    qed
  qed
qed

lemma filter_earlier_correct:
  assumes ok: "dedge_ok U dg" "order_ok order" "finite A" "A \<subseteq> U" "finite Z" "Z \<subseteq> U"
    and inv: "length ss = n" "i < n"
      "\<forall>j. j < i \<longrightarrow> ss ! j = fwd dg A j"
      "\<forall>j. i \<le> j \<and> j < n \<longrightarrow> ss ! j = reach dg A Z n j"
  shows "earlier_post dg A Z n i (filter_earlier order dg (rev [1..int i]) ss)"
  using inv
proof (induction i arbitrary: ss)
  case 0
  then show ?case by (simp add: earlier_post_def)
next
  case (Suc i)
  note len = \<open>length ss = n\<close> and i_n = \<open>Suc i < n\<close>
    and F = \<open>\<forall>j. j < Suc i \<longrightarrow> ss ! j = fwd dg A j\<close>
    and R = \<open>\<forall>j. Suc i \<le> j \<and> j < n \<longrightarrow> ss ! j = reach dg A Z n j\<close>
  have upto: "rev [1..int (Suc i)] = int (Suc i) # rev [1..int i]"
  proof -
    have "1 \<le> int (Suc i)" by simp
    from upto_rec2 [OF this] show ?thesis by simp
  qed
  have cur: "ss ! Suc i = reach dg A Z n (Suc i)" using R i_n by simp
  have prv: "ss ! i = fwd dg A i" using F by simp
  have new: "ss ! i \<inter> (\<Union>v \<in> ss ! Suc i. preds dg v) = reach dg A Z n i"
    using reach_pred_from_reach [OF ok(1,3,4,5,6) i_n] by (simp only: cur prv)
  have upd: "expand_update (ss ! i) (order (ss ! Suc i)) (dedge_get_start_vertices dg)
               = Inr (reach dg A Z n i)"
    using expand_preds [OF ok(1,2) reach_ok [OF ok(1,3,4,5,6), of n "Suc i"]] new
    by (simp add: expand_update_def cur)
  have fin: "finite (reach dg A Z n i)" by (rule reach_ok [OF ok(1,3,4,5,6)])
  have nat1: "nat (int (Suc i) - 1) = i" "nat (int (Suc i)) = Suc i" by simp_all
  let ?ss = "ss[i := reach dg A Z n i]"
  show ?case
  proof (cases "reach dg A Z n i = {}")
    case e: True
    have "filter_earlier order dg (rev [1..int (Suc i)]) ss = Inr (?ss, True)"
      unfolding upto filter_earlier.simps nat1 upd using e by simp
    moreover have "\<exists>k < n. reach dg A Z n k = {}"
      using e i_n by (intro exI [of _ i]) simp
    ultimately show ?thesis using len by (simp add: earlier_post_def)
  next
    case ne: False
    have step: "filter_earlier order dg (rev [1..int (Suc i)]) ss
                  = filter_earlier order dg (rev [1..int i]) ?ss"
      unfolding upto filter_earlier.simps nat1 upd using ne fin by simp
    have ih: "earlier_post dg A Z n i (filter_earlier order dg (rev [1..int i]) ?ss)"
    proof (rule Suc.IH)
      show "length ?ss = n" using len by simp
      show "i < n" using i_n by simp
      show "\<forall>j. j < i \<longrightarrow> ?ss ! j = fwd dg A j" using F by simp
      show "\<forall>j. i \<le> j \<and> j < n \<longrightarrow> ?ss ! j = reach dg A Z n j"
      proof (intro allI impI)
        fix j assume j: "i \<le> j \<and> j < n"
        show "?ss ! j = reach dg A Z n j"
        proof (cases "j = i")
          case True
          then show ?thesis using len j by simp
        next
          case False
          with j have "Suc i \<le> j" by simp
          with R j False show ?thesis by simp
        qed
      qed
    qed
    show ?thesis
    proof (cases i)
      case 0
      have "filter_earlier order dg (rev [1..int (Suc i)]) ss = Inr (?ss, False)"
        unfolding step using 0 by simp
      moreover have "\<forall>j. j < n \<longrightarrow> ?ss ! j = reach dg A Z n j"
      proof (intro allI impI)
        fix j assume j: "j < n"
        show "?ss ! j = reach dg A Z n j"
        proof (cases "j = i")
          case True
          then show ?thesis using len j by simp
        next
          case False
          with 0 have "Suc i \<le> j" by simp
          with R j False show ?thesis by simp
        qed
      qed
      ultimately show ?thesis using ne 0 len by (simp add: earlier_post_def)
    next
      case (Suc i')
      then show ?thesis using ih unfolding step by (auto simp: earlier_post_def split: sum.splits)
    qed
  qed
qed

lemma build_step_sets_correct:
  assumes ok: "dedge_ok U (dedge g)" "order_ok order"
      "set (start_vertices g) \<subseteq> U" "set (end_vertices g) \<subseteq> U"
    and n: "num_vertices g = int n" "2 \<le> n" and nd: "\<not> is_disconnected g"
  shows "build_post g n (build_step_sets order g)"
proof -
  let ?dg = "dedge g" and ?A = "set (start_vertices g)" and ?Z = "set (end_vertices g)"
  let ?ss2 = "(replicate n {})[0 := ?A, n - 1 := ?Z]"
  note ok' = ok(1,2) finite_set [of "start_vertices g"] ok(3) finite_set [of "end_vertices g"] ok(4)
  have n1: "int n - 1 = int (n - 1)" "int n - 2 = int (n - 1) - 1" using n(2) by simp_all
  have m: "meet_post ?dg ?A ?Z n (meet_loop order ?dg ?ss2 (int 0) (int (n - 1)))"
  proof (rule meet_loop_correct [OF ok'])
    show "length ?ss2 = n" by simp
    show "0 < n - 1" using n(2) by simp
    show "n - 1 < n" using n(2) by simp
    show "\<forall>j. j \<le> 0 \<longrightarrow> ?ss2 ! j = fwd ?dg ?A j" using n(2) by simp
    show "\<forall>j. n - 1 \<le> j \<and> j < n \<longrightarrow> ?ss2 ! j = bwd ?dg ?Z (n - 1 - j)"
    proof (intro allI impI)
      fix j assume "n - 1 \<le> j \<and> j < n"
      then have "j = n - 1" by arith
      then show "?ss2 ! j = bwd ?dg ?Z (n - 1 - j)" using n(2) by simp
    qed
  qed
  then obtain ss3 e l stop1 where
    r1: "meet_loop order ?dg ?ss2 0 (int (n - 1)) = Inr (ss3, e, l, stop1)"
    by (auto simp: meet_post_def split: sum.splits)
  have unf: "build_step_sets order g =
      (if stop1 then Inr (g\<lparr>step_sets := ss3, is_disconnected := True\<rparr>)
       else
         (case filter_later order ?dg [e..int (n - 1) - 1] ss3 of
            Inl e \<Rightarrow> Inl e
          | Inr (ss4, stop2) \<Rightarrow>
              if stop2 then Inr (g\<lparr>step_sets := ss4, is_disconnected := True\<rparr>)
              else
                (case filter_earlier order ?dg (rev [1..l]) ss4 of
                   Inl e \<Rightarrow> Inl e
                 | Inr (ss5, stop3) \<Rightarrow>
                     if stop3 then Inr (g\<lparr>step_sets := ss5, is_disconnected := True\<rparr>)
                     else Inr (g\<lparr>step_sets := ss5\<rparr>))))"
    using r1 by (simp add: build_step_sets_def Let_def n(1) n1)
  from m r1 have len3: "length ss3 = n"
    and s1: "stop1 \<Longrightarrow> \<exists>k < n. reach ?dg ?A ?Z n k = {}"
    by (simp_all add: meet_post_def)
  show ?thesis
  proof (cases stop1)
    case True
    then show ?thesis using unf len3 s1 by (simp add: build_post_def)
  next
    case ns1: False
    with m r1 obtain a' where a': "e = int a'" "l = int (Suc a')" "Suc a' < n"
      "\<forall>j. j \<le> a' \<longrightarrow> ss3 ! j = fwd ?dg ?A j"
      "\<forall>j. Suc a' \<le> j \<and> j < n \<longrightarrow> ss3 ! j = bwd ?dg ?Z (n - 1 - j)"
      by (auto simp: meet_post_def)
    have fl: "later_post ?dg ?A ?Z n a' (filter_later order ?dg [int a'..int (n - 1) - 1] ss3)"
    proof (rule filter_later_correct [OF ok'])
      show "length ss3 = n" by (fact len3)
      show "a' \<le> a'" by simp
      show "a' < n" using a'(3) by simp
      show "\<forall>j. j \<le> a' \<longrightarrow> ss3 ! j = fwd ?dg ?A j" by (fact a'(4))
      show "\<forall>j. a' < j \<and> j \<le> a' \<longrightarrow> ss3 ! j = reach ?dg ?A ?Z n j" by auto
      show "\<forall>j. a' < j \<and> j < n \<longrightarrow> ss3 ! j = bwd ?dg ?Z (n - 1 - j)" using a'(5) by simp
    qed
    then obtain ss4 stop2 where
      r2: "filter_later order ?dg [int a'..int (n - 1) - 1] ss3 = Inr (ss4, stop2)"
      by (auto simp: later_post_def split: sum.splits)
    from fl r2 have len4: "length ss4 = n"
      and s2: "stop2 \<Longrightarrow> \<exists>k < n. reach ?dg ?A ?Z n k = {}"
      by (simp_all add: later_post_def)
    show ?thesis
    proof (cases stop2)
      case True
      then show ?thesis using unf ns1 r2 a'(1) len4 s2 by (simp add: build_post_def)
    next
      case ns2: False
      with fl r2 have inv4: "\<forall>j. j \<le> a' \<longrightarrow> ss4 ! j = fwd ?dg ?A j"
        "\<forall>j. a' < j \<and> j < n \<longrightarrow> ss4 ! j = reach ?dg ?A ?Z n j"
        by (simp_all add: later_post_def)
      have fe: "earlier_post ?dg ?A ?Z n (Suc a')
                  (filter_earlier order ?dg (rev [1..int (Suc a')]) ss4)"
      proof (rule filter_earlier_correct [OF ok'])
        show "length ss4 = n" by (fact len4)
        show "Suc a' < n" by (fact a'(3))
        show "\<forall>j. j < Suc a' \<longrightarrow> ss4 ! j = fwd ?dg ?A j" using inv4(1) by simp
        show "\<forall>j. Suc a' \<le> j \<and> j < n \<longrightarrow> ss4 ! j = reach ?dg ?A ?Z n j" using inv4(2) by simp
      qed
      then obtain ss5 stop3 where
        r3: "filter_earlier order ?dg (rev [1..int (Suc a')]) ss4 = Inr (ss5, stop3)"
        by (auto simp: earlier_post_def split: sum.splits)
      from fe r3 have len5: "length ss5 = n"
        and s3: "stop3 \<Longrightarrow> \<exists>k < n. reach ?dg ?A ?Z n k = {}"
        and fin: "\<not> stop3 \<Longrightarrow> (\<forall>j. j < n \<longrightarrow> ss5 ! j = reach ?dg ?A ?Z n j)
                    \<and> reach ?dg ?A ?Z n 0 \<noteq> {}"
        by (simp_all add: earlier_post_def)
      have res: "build_step_sets order g =
          (if stop3 then Inr (g\<lparr>step_sets := ss5, is_disconnected := True\<rparr>)
           else Inr (g\<lparr>step_sets := ss5\<rparr>))"
        using unf ns1 ns2 r2 r3 a'(1,2) by simp
      show ?thesis
      proof (cases stop3)
        case True
        then show ?thesis using res len5 s3 by (simp add: build_post_def)
      next
        case False
        then show ?thesis using res len5 fin nd by (simp add: build_post_def)
      qed
    qed
  qed
qed

lemma successively_nth:
  "successively P p \<Longrightarrow> Suc i < length p \<Longrightarrow> P (p ! i) (p ! Suc i)"
proof (induction P p arbitrary: i rule: successively.induct)
  case (3 P x y xs)
  then show ?case by (cases i) auto
qed simp_all

lemma successively_nthI:
  "(\<And>i. Suc i < length p \<Longrightarrow> P (p ! i) (p ! Suc i)) \<Longrightarrow> successively P p"
proof (induction P p rule: successively.induct)
  case (3 P x y xs)
  have "P x y" using "3.prems" [of 0] by simp
  moreover have "successively P (y # xs)"
  proof (rule "3.IH")
    fix i assume "Suc i < length (y # xs)"
    then show "P ((y # xs) ! i) ((y # xs) ! Suc i)" using "3.prems" [of "Suc i"] by simp
  qed
  ultimately show ?case by simp
qed simp_all

lemma fwd_chain:
  "v \<in> fwd dg A k \<Longrightarrow>
     \<exists>p. length p = Suc k \<and> hd p \<in> A \<and> last p = v \<and> successively (\<lambda>u w. w \<in> succs dg u) p"
proof (induction k arbitrary: v)
  case 0
  then show ?case by (intro exI [of _ "[v]"]) simp
next
  case (Suc k)
  then obtain u where u: "u \<in> fwd dg A k" "v \<in> succs dg u" by auto
  from Suc.IH [OF u(1)] obtain p where p: "length p = Suc k" "hd p \<in> A" "last p = u"
    "successively (\<lambda>u w. w \<in> succs dg u) p" by blast
  from p(1) have ne: "p \<noteq> []" by auto
  show ?case
  proof (intro exI [of _ "p @ [v]"] conjI)
    show "length (p @ [v]) = Suc (Suc k)" using p(1) by simp
    show "hd (p @ [v]) \<in> A" using p(2) ne by simp
    show "last (p @ [v]) = v" by simp
    show "successively (\<lambda>u w. w \<in> succs dg u) (p @ [v])"
      using p(3,4) u(2) by (simp add: successively_append_iff)
  qed
qed

lemma bwd_chain:
  assumes "dedge_ok U dg" "finite Z" "Z \<subseteq> U"
  shows "v \<in> bwd dg Z k \<Longrightarrow>
     \<exists>q. length q = Suc k \<and> hd q = v \<and> last q \<in> Z \<and> successively (\<lambda>u w. w \<in> succs dg u) q"
proof (induction k arbitrary: v)
  case 0
  then show ?case by (intro exI [of _ "[v]"]) simp
next
  case (Suc k)
  then obtain w where w: "w \<in> bwd dg Z k" "v \<in> preds dg w" by auto
  have wU: "w \<in> U" using w(1) bwd_ok [OF assms, of k] by auto
  have vU: "v \<in> U" using w(2) dedge_ok_preds(3) [OF assms(1) wU] by auto
  have e: "w \<in> succs dg v" using dedge_ok_sym [OF assms(1) vU wU] w(2) by simp
  from Suc.IH [OF w(1)] obtain q where q: "length q = Suc k" "hd q = w" "last q \<in> Z"
    "successively (\<lambda>u w. w \<in> succs dg u) q" by blast
  from q(1) have ne: "q \<noteq> []" by auto
  show ?case
  proof (intro exI [of _ "v # q"] conjI)
    show "length (v # q) = Suc (Suc k)" using q(1) by simp
    show "hd (v # q) = v" by simp
    show "last (v # q) \<in> Z" using q(3) ne by simp
    show "successively (\<lambda>u w. w \<in> succs dg u) (v # q)"
      using q(2,4) e ne by (simp add: successively_Cons)
  qed
qed

lemma chain_fwd:
  assumes "successively (\<lambda>u w. w \<in> succs dg u) p" "p \<noteq> []" "hd p \<in> A"
  shows "j < length p \<Longrightarrow> p ! j \<in> fwd dg A j"
proof (induction j)
  case 0
  then show ?case using assms(2,3) by (simp add: hd_conv_nth)
next
  case (Suc j)
  then have "p ! j \<in> fwd dg A j" by simp
  moreover have "p ! Suc j \<in> succs dg (p ! j)"
    using successively_nth [OF assms(1) Suc.prems] .
  ultimately show ?case by auto
qed

lemma chain_bwd:
  assumes ok: "dedge_ok U dg" and ch: "successively (\<lambda>u w. w \<in> succs dg u) q" "q \<noteq> []"
    "last q \<in> Z" "set q \<subseteq> U"
  shows "j < length q \<Longrightarrow> q ! j \<in> bwd dg Z (length q - 1 - j)"
proof (induction "length q - 1 - j" arbitrary: j)
  case 0
  then have "j = length q - 1" by simp
  then show ?case using ch(2,3) by (simp add: last_conv_nth)
next
  case (Suc k)
  then have sj: "Suc j < length q" and k: "k = length q - 1 - Suc j" by simp_all
  have "q ! Suc j \<in> bwd dg Z (length q - 1 - Suc j)" using Suc.hyps(1) [OF k sj] .
  moreover have "q ! Suc j \<in> succs dg (q ! j)" using successively_nth [OF ch(1) sj] .
  moreover have "q ! j \<in> U" "q ! Suc j \<in> U" using ch(4) sj by (auto simp: subset_iff)
  ultimately have "q ! j \<in> preds dg (q ! Suc j)" "q ! Suc j \<in> bwd dg Z k"
    using dedge_ok_sym [OF ok] k by simp_all
  then have "q ! j \<in> bwd dg Z (Suc k)" by auto
  then show ?case using Suc.hyps(2) by simp
qed

lemma valid_path_in_U:
  assumes "dedge_ok U dg" "set sv \<subseteq> U" "valid_path dg sv ev n p"
  shows "set p \<subseteq> U"
proof
  fix x assume "x \<in> set p"
  then obtain j where j: "j < length p" "p ! j = x" by (auto simp: in_set_conv_nth)
  have "p ! j \<in> fwd dg (set sv) j"
    using chain_fwd [of dg p "set sv" j] assms(3) j(1) by (simp add: valid_path_def)
  then show "x \<in> U" using fwd_ok [OF assms(1) finite_set assms(2), of j] j(2) by auto
qed

lemma valid_path_reach:
  assumes ok: "dedge_ok U dg" "set sv \<subseteq> U" and p: "valid_path dg sv ev (int n) p" and j: "j < n"
  shows "p ! j \<in> reach dg (set sv) (set ev) n j"
proof -
  from p have len: "length p = n" and ne: "p \<noteq> []" and h: "hd p \<in> set sv"
    and l: "last p \<in> set ev" and ch: "successively (\<lambda>u w. w \<in> succs dg u) p"
    by (simp_all add: valid_path_def)
  have "p ! j \<in> fwd dg (set sv) j" using chain_fwd [OF ch ne h] j len by simp
  moreover have "p ! j \<in> bwd dg (set ev) (n - 1 - j)"
    using chain_bwd [OF ok(1) ch ne l valid_path_in_U [OF ok p], of j] j len by simp
  ultimately show ?thesis by (simp add: reach_def)
qed

lemma reach_valid_path:
  assumes ok: "dedge_ok U dg" "set ev \<subseteq> U" and v: "v \<in> reach dg (set sv) (set ev) n j" and j: "j < n"
  shows "\<exists>p. valid_path dg sv ev (int n) p \<and> p ! j = v"
proof -
  from v have "v \<in> fwd dg (set sv) j" "v \<in> bwd dg (set ev) (n - 1 - j)"
    by (simp_all add: reach_def)
  from fwd_chain [OF this(1)] bwd_chain [OF ok(1) finite_set ok(2) this(2)]
  obtain p q where p: "length p = Suc j" "hd p \<in> set sv" "last p = v"
      "successively (\<lambda>u w. w \<in> succs dg u) p"
    and q: "length q = Suc (n - 1 - j)" "hd q = v" "last q \<in> set ev"
      "successively (\<lambda>u w. w \<in> succs dg u) q"
    by blast
  from p(1) have pne: "p \<noteq> []" by auto
  from q(1) obtain q' where q': "q = v # q'" using q(2) by (cases q) auto
  let ?r = "p @ q'"
  have "length ?r = n" using p(1) q(1) q' j by simp
  moreover have "hd ?r \<in> set sv" using p(2) pne by simp
  moreover have "last ?r \<in> set ev"
    using q(3) q' p(3) by (cases "q' = []") auto
  moreover have "successively (\<lambda>u w. w \<in> succs dg u) ?r"
    using p(3,4) q(4) q' pne
    by (cases q') (auto simp: successively_append_iff successively_Cons)
  moreover have "?r ! j = v" using p(1,3) pne by (simp add: nth_append last_conv_nth)
  ultimately show ?thesis using pne by (intro exI [of _ ?r]) (simp add: valid_path_def)
qed

lemma reach_0_iff_path:
  assumes ok: "dedge_ok U dg" "set sv \<subseteq> U" "set ev \<subseteq> U" and n: "0 < n"
  shows "(\<exists>k < n. reach dg (set sv) (set ev) n k = {}) \<longleftrightarrow> \<not> (\<exists>p. valid_path dg sv ev (int n) p)"
    and "reach dg (set sv) (set ev) n 0 \<noteq> {} \<longleftrightarrow> (\<exists>p. valid_path dg sv ev (int n) p)"
proof -
  have a: "\<And>p k. valid_path dg sv ev (int n) p \<Longrightarrow> k < n \<Longrightarrow> reach dg (set sv) (set ev) n k \<noteq> {}"
    using valid_path_reach [OF ok(1,2)] by blast
  have b: "reach dg (set sv) (set ev) n 0 \<noteq> {} \<Longrightarrow> \<exists>p. valid_path dg sv ev (int n) p"
    using reach_valid_path [OF ok(1,3) _ n] by blast
  show "reach dg (set sv) (set ev) n 0 \<noteq> {} \<longleftrightarrow> (\<exists>p. valid_path dg sv ev (int n) p)"
    using a n b by blast
  show "(\<exists>k < n. reach dg (set sv) (set ev) n k = {}) \<longleftrightarrow> \<not> (\<exists>p. valid_path dg sv ev (int n) p)"
    using a n b by blast
qed

lemma level_Nil: "level order g n path k [] = []"
  by (simp add: level_def)

lemma level_snoc:
  "level order g n path k (vs @ [v]) =
     map (\<lambda>c. take k path @ map Some c) (completions order g (n - 1 - k) k v)
     @ level order g n path k vs"
  by (simp add: level_def)

lemma level_cong:
  "take k path = take k path' \<Longrightarrow> level order g n path k vs = level order g n path' k vs"
  by (simp add: level_def)

lemma remaining_cong:
  assumes "take k path = take k path'" "\<And>j. j \<le> k \<Longrightarrow> sv ! j = sv' ! j"
  shows "remaining order g n path sv k = remaining order g n path' sv' k"
  using assms
proof (induction k)
  case 0
  then show ?case by (simp add: level_def)
next
  case (Suc k)
  have "take k path = take k path'"
    using Suc.prems(1) by (metis take_take min.absorb1 le_add2 plus_1_eq_Suc)
  then have "remaining order g n path sv k = remaining order g n path' sv' k"
    using Suc.IH Suc.prems(2) by simp
  moreover have "level order g n path (Suc k) (slot_list (sv ! Suc k))
      = level order g n path' (Suc k) (slot_list (sv' ! Suc k))"
    using Suc.prems by (simp add: level_def)
  ultimately show ?case by simp
qed

lemma level_descend:
  assumes "Suc k < n" "k < length path"
  shows "level order g n (path[k := Some v]) (Suc k)
           (order (succs (dedge g) v \<inter> step_sets g ! Suc k))
         = map (\<lambda>c. take k path @ map Some c) (completions order g (n - 1 - k) k v)"
proof -
  have d: "n - 1 - k = Suc (n - 1 - Suc k)" using assms(1) by simp
  have t: "take (Suc k) (path[k := Some v]) = take k path @ [Some v]"
    using assms(2) by (simp add: take_Suc_conv_app_nth)
  show ?thesis
    unfolding d completions.simps level_def t
    by (simp add: map_concat comp_def)
qed

lemma paths_loop_done: "idx < 0 \<Longrightarrow> paths_loop order g path idx sv = Inr []"
  by (subst paths_loop.simps) simp

lemma paths_loop_empty:
  "k < length sv \<Longrightarrow> sv ! k = Some [] \<Longrightarrow>
     paths_loop order g path (int k) sv = paths_loop order g path (int k - 1) sv"
  by (subst paths_loop.simps) simp

lemma paths_loop_leaf:
  "k < length sv \<Longrightarrow> k < length path \<Longrightarrow> sv ! k = Some (rest @ [v]) \<Longrightarrow>
   num_vertices g = int k + 1 \<Longrightarrow>
     paths_loop order g path (int k) sv =
       (case paths_loop order g (path[k := Some v]) (int k) (sv[k := Some rest]) of
          Inl e \<Rightarrow> Inl e
        | Inr ps \<Rightarrow> Inr (path[k := Some v] # ps))"
  by (subst paths_loop.simps) (simp add: Let_def)

lemma paths_loop_inner:
  "k < length sv \<Longrightarrow> k < length path \<Longrightarrow> sv ! k = Some (rest @ [v]) \<Longrightarrow>
   num_vertices g \<noteq> int k + 1 \<Longrightarrow>
   dedge_get_end_vertices (dedge g) v = Inr ends \<Longrightarrow>
   Suc k < length (step_sets g) \<Longrightarrow> Suc k < length sv \<Longrightarrow>
     paths_loop order g path (int k) sv =
       paths_loop order g (path[k := Some v]) (int k + 1)
         (sv[k := Some rest, Suc k := Some (order (ends \<inter> step_sets g ! Suc k))])"
  by (subst paths_loop.simps) (simp add: Let_def nat_add_distrib)

lemma paths_loop_remaining:
  assumes ok: "dedge_ok U (dedge g)" "order_ok order" "num_vertices g = int n"
    "length (step_sets g) = n"
    "\<And>j. j < n \<Longrightarrow> finite (step_sets g ! j) \<and> step_sets g ! j \<subseteq> U"
  shows "- 1 \<le> idx \<Longrightarrow> idx < int n \<Longrightarrow> length path = n \<Longrightarrow> length sv = n \<Longrightarrow>
     (\<And>j. int j \<le> idx \<Longrightarrow> \<exists>vs. sv ! j = Some vs \<and> set vs \<subseteq> U) \<Longrightarrow>
     paths_loop order g path idx sv =
       Inr (if idx < 0 then [] else remaining order g n path sv (nat idx))"
  using ok
proof (induction order g path idx sv rule: paths_loop.induct)
  case (1 order g path idx sv)
  note lo = \<open>- 1 \<le> idx\<close> and hi = \<open>idx < int n\<close> and lp = \<open>length path = n\<close>
    and ls = \<open>length sv = n\<close> and slots = "1.prems"(5)
    and ok = "1.prems"(6-10)
  show ?case
  proof (cases "idx < 0")
    case True
    then show ?thesis by (subst paths_loop.simps) simp
  next
    case False
    define k where "k = nat idx"
    have idx: "idx = int k" and kn: "k < n" using False hi by (simp_all add: k_def)
    from slots [of k] obtain vertices where vs: "sv ! k = Some vertices" "set vertices \<subseteq> U"
      by (auto simp: idx)
    have rem_unfold: "remaining order g n path sv k =
        level order g n path k vertices @ (if k = 0 then [] else remaining order g n path sv (k - 1))"
      using vs(1) by (cases k) (simp_all add: slot_list_def)
    show ?thesis
    proof (cases "vertices = []")
      case True
      have step: "paths_loop order g path idx sv = paths_loop order g path (idx - 1) sv"
        unfolding idx using paths_loop_empty [of k sv order g path] True kn ls vs by simp
      have "paths_loop order g path (idx - 1) sv =
          Inr (if idx - 1 < 0 then [] else remaining order g n path sv (nat (idx - 1)))"
      proof (rule "1.IH"(1) [OF _ _ _ _ _ _ _ _ _ ok])
        show "- 1 < idx" using False by simp
        show "\<not> \<not> nat idx < length sv" using kn ls by (simp add: k_def)
        show "sv ! nat idx = Some vertices" using vs by (simp add: k_def)
        show "length vertices = 0" using True by simp
        show "- 1 \<le> idx - 1" using False by simp
        show "idx - 1 < int n" using hi by simp
        show "length path = n" by (fact lp)
        show "length sv = n" by (fact ls)
        show "\<And>j. int j \<le> idx - 1 \<Longrightarrow> \<exists>vs. sv ! j = Some vs \<and> set vs \<subseteq> U"
          using slots by simp
      qed
      also have "(if idx - 1 < 0 then [] else remaining order g n path sv (nat (idx - 1)))
          = remaining order g n path sv k"
        unfolding rem_unfold using True by (simp add: idx level_Nil nat_diff_distrib)
      finally show ?thesis using step False by (simp add: k_def)
    next
      case ne: False
      define vertex where "vertex = last vertices"
      define rest where "rest = butlast vertices"
      define sv1 where "sv1 = sv[nat idx := Some rest]"
      define path1 where "path1 = path[nat idx := Some vertex]"
      have vsplit: "vertices = rest @ [vertex]" using ne by (simp add: rest_def vertex_def)
      have vU: "vertex \<in> U" and restU: "set rest \<subseteq> U" using vs(2) vsplit by auto
      have t1: "take k path1 = take k path" by (simp add: path1_def k_def)
      have lvl: "level order g n path k vertices =
          map (\<lambda>c. take k path @ map Some c) (completions order g (n - 1 - k) k vertex)
          @ level order g n path k rest"
        unfolding vsplit by (rule level_snoc)
      have low: "(if k = 0 then [] else remaining order g n path sv (k - 1))
          = (if k = 0 then [] else remaining order g n path1 sv1 (k - 1))"
      proof (cases k)
        case 0
        then show ?thesis by simp
      next
        case (Suc k')
        have "take k' path = take k' path1"
          using Suc by (simp add: path1_def k_def [symmetric])
        moreover have "\<And>j. j \<le> k' \<Longrightarrow> sv ! j = sv1 ! j"
          using Suc by (simp add: sv1_def k_def [symmetric])
        ultimately show ?thesis using Suc remaining_cong [of k' path path1 sv sv1] by simp
      qed
      show ?thesis
      proof (cases "idx = num_vertices g - 1")
        case leaf: True
        then have kl: "k = n - 1" using ok(3) idx kn by simp
        have step: "paths_loop order g path idx sv =
            (case paths_loop order g path1 idx sv1 of Inl e \<Rightarrow> Inl e | Inr rest \<Rightarrow> Inr (path1 # rest))"
          unfolding sv1_def path1_def idx nat_int
          by (rule paths_loop_leaf) (use kn ls lp vs vsplit leaf idx in simp_all)
        have ih: "paths_loop order g path1 idx sv1 =
            Inr (if idx < 0 then [] else remaining order g n path1 sv1 (nat idx))"
        proof (rule "1.IH"(2) [OF _ _ _ _ _ _ _ _ _ _ _ _ _ _ ok])
          show "- 1 < idx" using False by simp
          show "\<not> \<not> nat idx < length sv" using kn ls by (simp add: k_def)
          show "sv ! nat idx = Some vertices" using vs by (simp add: k_def)
          show "length vertices \<noteq> 0" using ne by simp
          show "vertex = last vertices" by (fact vertex_def)
          show "sv1 = sv[nat idx := Some (butlast vertices)]" by (simp add: sv1_def rest_def)
          show "\<not> \<not> nat idx < length path" using kn lp by (simp add: k_def)
          show "path1 = path[nat idx := Some vertex]" by (fact path1_def)
          show "idx = num_vertices g - 1" by (fact leaf)
          show "- 1 \<le> idx" by (fact lo)
          show "idx < int n" by (fact hi)
          show "length path1 = n" using lp by (simp add: path1_def)
          show "length sv1 = n" using ls by (simp add: sv1_def)
          show "\<And>j. int j \<le> idx \<Longrightarrow> \<exists>vs. sv1 ! j = Some vs \<and> set vs \<subseteq> U"
          proof -
            fix j assume j: "int j \<le> idx"
            show "\<exists>vs. sv1 ! j = Some vs \<and> set vs \<subseteq> U"
            proof (cases "j = k")
              case True
              then show ?thesis using restU kn ls by (simp add: sv1_def k_def)
            next
              case False
              then show ?thesis using slots [OF j] by (simp add: sv1_def k_def)
            qed
          qed
        qed
        have p1: "path1 = take k path @ [Some vertex]"
          using kl lp kn by (simp add: path1_def k_def [symmetric] upd_conv_take_nth_drop)
        have r1: "remaining order g n path1 sv1 k =
            level order g n path k rest @ (if k = 0 then [] else remaining order g n path1 sv1 (k - 1))"
        proof -
          have "sv1 ! k = Some rest" using kn ls by (simp add: sv1_def k_def)
          then have "remaining order g n path1 sv1 k =
            level order g n path1 k rest @ (if k = 0 then [] else remaining order g n path1 sv1 (k - 1))"
            by (cases k) (simp_all add: slot_list_def)
          then show ?thesis using level_cong [OF t1] by simp
        qed
        have "remaining order g n path sv k = path1 # remaining order g n path1 sv1 k"
          unfolding rem_unfold lvl r1 low using kl by (simp add: p1)
        then show ?thesis using step ih False by (simp add: k_def)
      next
        case inner: False
        then have sk: "Suc k < n" using ok(3) idx kn by simp
        have ends: "dedge_get_end_vertices (dedge g) vertex = Inr (succs (dedge g) vertex)"
          by (rule dedge_ok_succs(1) [OF ok(1) vU])
        define cs where "cs = order (succs (dedge g) vertex \<inter> step_sets g ! Suc k)"
        define sv2 where "sv2 = sv1[Suc k := Some cs]"
        have nat2: "nat (int k + 1) = Suc k" by simp
        have step: "paths_loop order g path idx sv = paths_loop order g path1 (idx + 1) sv2"
          unfolding sv2_def sv1_def path1_def cs_def idx nat_int
          by (rule paths_loop_inner) (use kn ls lp vs vsplit inner idx sk ok(4) ends in simp_all)
        have csU: "set cs \<subseteq> U"
        proof -
          have "finite (succs (dedge g) vertex \<inter> step_sets g ! Suc k)"
            using ok(5) [OF sk] by simp
          then have "set cs = succs (dedge g) vertex \<inter> step_sets g ! Suc k"
            using ok(2) by (simp add: cs_def order_ok_def)
          then show ?thesis using ok(5) [OF sk] by auto
        qed
        let ?sv2 = "sv1[nat (idx + 1) := Some (order (succs (dedge g) vertex \<inter> step_sets g ! nat (idx + 1)))]"
        have ih: "paths_loop order g path1 (idx + 1) ?sv2 =
            Inr (if idx + 1 < 0 then [] else remaining order g n path1 ?sv2 (nat (idx + 1)))"
        proof (rule "1.IH"(3) [OF _ _ _ _ _ _ _ _ _ _ _ _ _ _ _ _ _ ok])
          show "- 1 < idx" using False by simp
          show "\<not> \<not> nat idx < length sv" using kn ls by (simp add: k_def)
          show "sv ! nat idx = Some vertices" using vs by (simp add: k_def)
          show "length vertices \<noteq> 0" using ne by simp
          show "vertex = last vertices" by (fact vertex_def)
          show "sv1 = sv[nat idx := Some (butlast vertices)]" by (simp add: sv1_def rest_def)
          show "\<not> \<not> nat idx < length path" using kn lp by (simp add: k_def)
          show "path1 = path[nat idx := Some vertex]" by (fact path1_def)
          show "idx \<noteq> num_vertices g - 1" by (fact inner)
          show "dedge_get_end_vertices (dedge g) vertex = Inr (succs (dedge g) vertex)" by (fact ends)
          show "\<not> \<not> nat (idx + 1) < length (step_sets g)" using sk ok(4) by (simp add: idx)
          show "\<not> \<not> nat (idx + 1) < length sv" using sk ls by (simp add: idx)
          show "- 1 \<le> idx + 1" using lo by simp
          show "idx + 1 < int n" using sk by (simp add: idx)
          show "length path1 = n" using lp by (simp add: path1_def)
          show "length (sv1[nat (idx + 1) := Some (order (succs (dedge g) vertex \<inter> step_sets g ! nat (idx + 1)))]) = n"
            using ls by (simp add: sv1_def)
          show "\<And>j. int j \<le> idx + 1 \<Longrightarrow>
              \<exists>vs. sv1[nat (idx + 1) := Some (order (succs (dedge g) vertex \<inter> step_sets g ! nat (idx + 1)))] ! j = Some vs
                 \<and> set vs \<subseteq> U"
          proof -
            fix j assume j: "int j \<le> idx + 1"
            show "\<exists>vs. sv1[nat (idx + 1) := Some (order (succs (dedge g) vertex \<inter> step_sets g ! nat (idx + 1)))] ! j = Some vs
                 \<and> set vs \<subseteq> U"
            proof (cases "j = Suc k")
              case True
              then show ?thesis using csU sk ls by (simp add: sv1_def idx nat2 cs_def)
            next
              case nsk: False
              with j have jk: "int j \<le> idx" by (simp add: idx)
              show ?thesis
              proof (cases "j = k")
                case True
                then show ?thesis using restU kn ls nsk by (simp add: sv1_def idx nat2)
              next
                case False
                then show ?thesis using slots [OF jk] nsk by (simp add: sv1_def idx nat2)
              qed
            qed
          qed
        qed
        have sv2_eq: "sv1[nat (idx + 1) := Some (order (succs (dedge g) vertex \<inter> step_sets g ! nat (idx + 1)))] = sv2"
          by (simp add: sv2_def cs_def idx nat2)
        have r2: "remaining order g n path1 sv2 (Suc k) =
            level order g n path1 (Suc k) cs @ level order g n path k rest
            @ (if k = 0 then [] else remaining order g n path1 sv1 (k - 1))"
        proof -
          have a: "sv2 ! Suc k = Some cs" using sk ls by (simp add: sv2_def sv1_def)
          have b: "sv2 ! k = Some rest" using kn ls by (simp add: sv2_def sv1_def k_def)
          have c: "(if k = 0 then [] else remaining order g n path1 sv2 (k - 1))
              = (if k = 0 then [] else remaining order g n path1 sv1 (k - 1))"
          proof (cases k)
            case 0
            then show ?thesis by simp
          next
            case (Suc k')
            have "\<And>j. j \<le> k' \<Longrightarrow> sv2 ! j = sv1 ! j" using Suc by (simp add: sv2_def)
            then show ?thesis using Suc remaining_cong [of k' path1 path1 sv2 sv1] by simp
          qed
          have "remaining order g n path1 sv2 k =
              level order g n path1 k rest @ (if k = 0 then [] else remaining order g n path1 sv2 (k - 1))"
            using b by (cases k) (simp_all add: slot_list_def)
          then show ?thesis using a c level_cong [OF t1] by (simp add: slot_list_def)
        qed
        have desc: "level order g n path1 (Suc k) cs =
            map (\<lambda>c. take k path @ map Some c) (completions order g (n - 1 - k) k vertex)"
          unfolding path1_def cs_def k_def [symmetric]
          by (rule level_descend [OF sk]) (use kn lp in simp)
        have "remaining order g n path sv k = remaining order g n path1 sv2 (Suc k)"
          unfolding rem_unfold lvl r2 low desc by simp
        then show ?thesis using step ih False unfolding sv2_eq by (simp add: idx nat2)
      qed
    qed
  qed
qed

lemma init_constructed:
  assumes ok: "dedge_ok U dg" "order_ok order" "set sv \<subseteq> U" "set ev \<subseteq> U"
    and init: "GraphPathFinder_init order sv ev N dg = Inr g"
  shows "\<exists>n. N = int n \<and> constructed U g n \<and> start_vertices g = sv \<and> end_vertices g = ev
           \<and> dedge g = dg \<and> sv \<noteq> [] \<and> ev \<noteq> []"
proof -
  from init have ne: "sv \<noteq> []" "ev \<noteq> []" and N: "2 \<le> N"
    by (auto simp: GraphPathFinder_init_def split: if_splits)
  define n where "n = nat N"
  have Nn: "N = int n" and n2: "2 \<le> n" using N by (simp_all add: n_def)
  let ?g0 = "\<lparr>start_vertices = sv, end_vertices = ev, num_vertices = int n,
              dedge = dg, step_sets = [], is_disconnected = False\<rparr>"
  have b: "build_step_sets order ?g0 = Inr g"
    using init ne N by (simp add: GraphPathFinder_init_def Nn)
  have "build_post ?g0 n (build_step_sets order ?g0)"
    by (rule build_step_sets_correct [where U = U]) (use ok n2 in simp_all)
  then have "constructed U g n \<and> start_vertices g = sv \<and> end_vertices g = ev \<and> dedge g = dg"
    unfolding b using ok n2 by (simp add: build_post_def constructed_def)
  then show ?thesis using Nn ne by blast
qed

lemma set_completions:
  assumes "order_ok order" "\<And>j. j < n \<Longrightarrow> finite (step_sets g ! j)"
  shows "k + d < n \<Longrightarrow>
     set (completions order g d k v) = {c. \<exists>ws. c = v # ws \<and> length ws = d \<and> follows g k v ws}"
proof (induction d arbitrary: k v)
  case 0
  then show ?case by auto
next
  case (Suc d)
  have fin: "finite (succs (dedge g) v \<inter> step_sets g ! Suc k)"
    using assms(2) [of "Suc k"] Suc.prems by simp
  then have cs: "set (order (succs (dedge g) v \<inter> step_sets g ! Suc k))
      = succs (dedge g) v \<inter> step_sets g ! Suc k"
    using assms(1) by (simp add: order_ok_def)
  have ih: "\<And>w. set (completions order g d (Suc k) w)
      = {c. \<exists>ws. c = w # ws \<and> length ws = d \<and> follows g (Suc k) w ws}"
    using Suc.IH [of "Suc k"] Suc.prems by simp
  show ?case
  proof (rule set_eqI, rule iffI)
    fix c assume "c \<in> set (completions order g (Suc d) k v)"
    then obtain w c' where w: "w \<in> succs (dedge g) v" "w \<in> step_sets g ! Suc k"
      and c': "c' \<in> set (completions order g d (Suc k) w)" "c = v # c'"
      by (auto simp: cs)
    from c'(1) obtain ws where "c' = w # ws" "length ws = d" "follows g (Suc k) w ws"
      unfolding ih by blast
    with w c'(2) show "c \<in> {c. \<exists>ws. c = v # ws \<and> length ws = Suc d \<and> follows g k v ws}"
      by auto
  next
    fix c assume "c \<in> {c. \<exists>ws. c = v # ws \<and> length ws = Suc d \<and> follows g k v ws}"
    then obtain ws where ws: "c = v # ws" "length ws = Suc d" "follows g k v ws" by blast
    from ws(2) obtain w ws' where w: "ws = w # ws'" by (cases ws) auto
    with ws have f: "w \<in> succs (dedge g) v" "w \<in> step_sets g ! Suc k" "follows g (Suc k) w ws'"
      "length ws' = d" by auto
    then have "w # ws' \<in> set (completions order g d (Suc k) w)" unfolding ih by blast
    with f(1,2) show "c \<in> set (completions order g (Suc d) k v)"
      by (auto simp: cs ws(1) w)
  qed
qed

lemma completions_hd: "c \<in> set (completions order g d k v) \<Longrightarrow> c \<noteq> [] \<and> hd c = v"
  by (cases d) auto

lemma distinct_concat_map:
  assumes "distinct ws" "\<And>w. w \<in> set ws \<Longrightarrow> distinct (f w)"
    "\<And>w w'. w \<in> set ws \<Longrightarrow> w' \<in> set ws \<Longrightarrow> w \<noteq> w' \<Longrightarrow> set (f w) \<inter> set (f w') = {}"
  shows "distinct (concat (map f ws))"
  using assms
proof (induction ws)
  case Nil
  then show ?case by simp
next
  case (Cons w ws)
  have "distinct (concat (map f ws))" using Cons by simp
  moreover have "distinct (f w)" using Cons.prems(2) by simp
  moreover have "set (f w) \<inter> (\<Union>w' \<in> set ws. set (f w')) = {}"
  proof -
    have "\<And>w'. w' \<in> set ws \<Longrightarrow> set (f w) \<inter> set (f w') = {}"
      using Cons.prems(1,3) by auto
    then show ?thesis by blast
  qed
  ultimately show ?case by simp
qed

lemma distinct_completions:
  assumes "order_ok order" "\<And>j. j < n \<Longrightarrow> finite (step_sets g ! j)"
  shows "k + d < n \<Longrightarrow> distinct (completions order g d k v)"
proof (induction d arbitrary: k v)
  case 0
  then show ?case by simp
next
  case (Suc d)
  have fin: "finite (succs (dedge g) v \<inter> step_sets g ! Suc k)"
    using assms(2) [of "Suc k"] Suc.prems by simp
  then have cs: "distinct (order (succs (dedge g) v \<inter> step_sets g ! Suc k))"
    using assms(1) by (simp add: order_ok_def)
  show ?case
    unfolding completions.simps
  proof (rule distinct_concat_map)
    show "distinct (rev (order (succs (dedge g) v \<inter> step_sets g ! Suc k)))" using cs by simp
    show "\<And>w. distinct (map ((#) v) (completions order g d (Suc k) w))"
      using Suc.IH [of "Suc k"] Suc.prems by (simp add: distinct_map)
    show "\<And>w w'. w \<noteq> w' \<Longrightarrow>
        set (map ((#) v) (completions order g d (Suc k) w))
        \<inter> set (map ((#) v) (completions order g d (Suc k) w')) = {}"
    proof -
      fix w w' :: 'a assume ne: "w \<noteq> w'"
      have "\<And>c. c \<in> set (completions order g d (Suc k) w) \<Longrightarrow>
                c \<notin> set (completions order g d (Suc k) w')"
        using completions_hd [of _ order g d "Suc k"] ne by metis
      then show "set (map ((#) v) (completions order g d (Suc k) w))
          \<inter> set (map ((#) v) (completions order g d (Suc k) w')) = {}"
        by auto
    qed
  qed
qed

lemma follows_iff:
  "follows g k v ws \<longleftrightarrow>
     successively (\<lambda>u w. w \<in> succs (dedge g) u) (v # ws)
     \<and> (\<forall>i < length ws. ws ! i \<in> step_sets g ! (Suc k + i))"
proof (induction ws arbitrary: k v)
  case Nil
  then show ?case by simp
next
  case (Cons w ws)
  have "(\<forall>i < length (w # ws). (w # ws) ! i \<in> step_sets g ! (Suc k + i))
      \<longleftrightarrow> w \<in> step_sets g ! Suc k \<and> (\<forall>i < length ws. ws ! i \<in> step_sets g ! (Suc (Suc k) + i))"
    by (simp add: All_less_Suc2)
  then show ?case using Cons.IH [of "Suc k" w] by auto
qed

lemma constructed_step_sets:
  assumes "constructed U g n" "\<not> is_disconnected g" "j < n"
  shows "step_sets g ! j = reach (dedge g) (set (start_vertices g)) (set (end_vertices g)) n j"
    and "finite (step_sets g ! j)" and "step_sets g ! j \<subseteq> U"
proof -
  show eq: "step_sets g ! j = reach (dedge g) (set (start_vertices g)) (set (end_vertices g)) n j"
    using assms by (simp add: constructed_def)
  have ok: "dedge_ok U (dedge g)" "set (start_vertices g) \<subseteq> U" "set (end_vertices g) \<subseteq> U"
    using assms(1) by (simp_all add: constructed_def)
  show "finite (step_sets g ! j)" "step_sets g ! j \<subseteq> U"
    unfolding eq using reach_ok [OF ok(1) finite_set ok(2) finite_set ok(3)] by blast+
qed

lemma generator_eq:
  assumes c: "constructed U g n" "\<not> is_disconnected g" and o: "order_ok order"
  shows "get_all_paths_generator order g = Inr (map (map Some) (all_paths_spec order g n))"
proof -
  from c(1) have n: "num_vertices g = int n" "2 \<le> n" "length (step_sets g) = n"
    and ok: "dedge_ok U (dedge g)"
    by (simp_all add: constructed_def)
  let ?path = "replicate n (None :: 'a option)"
  let ?sv = "(replicate n None)[0 := Some (order (step_sets g ! 0))]"
  have fin0: "finite (step_sets g ! 0)" "step_sets g ! 0 \<subseteq> U"
    using constructed_step_sets(2,3) [OF c, of 0] n(2) by simp_all
  have unf: "get_all_paths_generator order g = paths_loop order g ?path 0 ?sv"
    using n by (simp add: get_all_paths_generator_def Let_def)
  have "paths_loop order g ?path 0 ?sv =
      Inr (if (0::int) < 0 then [] else remaining order g n ?path ?sv (nat 0))"
  proof (rule paths_loop_remaining [OF ok o n(1,3)])
    show "\<And>j. j < n \<Longrightarrow> finite (step_sets g ! j) \<and> step_sets g ! j \<subseteq> U"
      using constructed_step_sets(2,3) [OF c] by blast
    show "- 1 \<le> (0::int)" by simp
    show "0 < int n" using n(2) by simp
    show "length ?path = n" by simp
    show "length ?sv = n" by simp
    show "\<And>j. int j \<le> 0 \<Longrightarrow> \<exists>vs. ?sv ! j = Some vs \<and> set vs \<subseteq> U"
      using fin0 o n(2) by (simp add: order_ok_def)
  qed
  also have "(if (0::int) < 0 then [] else remaining order g n ?path ?sv (nat 0))
      = map (map Some) (all_paths_spec order g n)"
    using n(2) by (simp add: level_def slot_list_def all_paths_spec_def map_concat comp_def)
  finally show ?thesis using unf by simp
qed

lemma all_paths_spec_set:
  assumes c: "constructed U g n" "\<not> is_disconnected g" and o: "order_ok order"
  shows "set (all_paths_spec order g n) =
           {p. valid_path (dedge g) (start_vertices g) (end_vertices g) (int n) p}"
proof -
  let ?dg = "dedge g" and ?sv = "start_vertices g" and ?ev = "end_vertices g"
  from c(1) have n: "2 \<le> n" and ok: "dedge_ok U ?dg" "set ?sv \<subseteq> U" "set ?ev \<subseteq> U"
    by (simp_all add: constructed_def)
  have ss: "\<And>j. j < n \<Longrightarrow> step_sets g ! j = reach ?dg (set ?sv) (set ?ev) n j"
    using constructed_step_sets(1) [OF c] .
  have fin: "\<And>j. j < n \<Longrightarrow> finite (step_sets g ! j)"
    using constructed_step_sets(2) [OF c] .
  have s0: "set (order (step_sets g ! 0)) = step_sets g ! 0"
    using fin [of 0] o n by (simp add: order_ok_def)
  have mem: "\<And>p. p \<in> set (all_paths_spec order g n) \<longleftrightarrow>
      (\<exists>w ws. p = w # ws \<and> w \<in> step_sets g ! 0 \<and> length ws = n - 1 \<and> follows g 0 w ws)"
  proof -
    fix p
    have lt: "0 + (n - 1) < n" using n by simp
    have sc: "\<And>v. set (completions order g (n - 1) 0 v)
        = {c. \<exists>ws. c = v # ws \<and> length ws = n - 1 \<and> follows g 0 v ws}"
      by (rule set_completions [OF o fin lt])
    show "p \<in> set (all_paths_spec order g n) \<longleftrightarrow>
      (\<exists>w ws. p = w # ws \<and> w \<in> step_sets g ! 0 \<and> length ws = n - 1 \<and> follows g 0 w ws)"
      unfolding all_paths_spec_def set_concat set_map set_rev s0 image_image sc by blast
  qed
  show ?thesis
  proof (rule set_eqI, rule iffI)
    fix p assume "p \<in> set (all_paths_spec order g n)"
    then obtain w ws where p: "p = w # ws" "w \<in> step_sets g ! 0" "length ws = n - 1"
      "follows g 0 w ws" unfolding mem by blast
    from p(4) have ch: "successively (\<lambda>u w. w \<in> succs ?dg u) p"
      and lv: "\<forall>i < length ws. ws ! i \<in> step_sets g ! (Suc 0 + i)"
      unfolding follows_iff p(1) by simp_all
    have len: "length p = n" using p(1,3) n by simp
    have "w \<in> fwd ?dg (set ?sv) 0" using p(2) ss [of 0] n by (simp add: reach_def)
    then have h: "hd p \<in> set ?sv" using p(1) by simp
    have "p ! (n - 1) \<in> step_sets g ! (n - 1)"
    proof (cases "n - 1")
      case 0
      then show ?thesis using n by simp
    next
      case (Suc m)
      then have "m < length ws" using p(3) by simp
      with lv have "ws ! m \<in> step_sets g ! Suc m" by simp
      then show ?thesis using Suc p(1) by simp
    qed
    then have "p ! (n - 1) \<in> bwd ?dg (set ?ev) 0" using ss [of "n - 1"] n by (simp add: reach_def)
    moreover have "last p = p ! (n - 1)"
      using len n by (subst last_conv_nth) auto
    ultimately have l: "last p \<in> set ?ev" by simp
    show "p \<in> {p. valid_path ?dg ?sv ?ev (int n) p}"
      using len h l ch p(1) by (simp add: valid_path_def)
  next
    fix p assume "p \<in> {p. valid_path ?dg ?sv ?ev (int n) p}"
    then have v: "valid_path ?dg ?sv ?ev (int n) p" by simp
    then have len: "length p = n" and ch: "successively (\<lambda>u w. w \<in> succs ?dg u) p"
      by (simp_all add: valid_path_def)
    from len n obtain w ws where p: "p = w # ws" by (cases p) auto
    have r: "\<And>j. j < n \<Longrightarrow> p ! j \<in> step_sets g ! j"
      using valid_path_reach [OF ok(1,2) v] ss by simp
    have "w \<in> step_sets g ! 0" using r [of 0] n p by simp
    moreover have "length ws = n - 1" using len p by simp
    moreover have "follows g 0 w ws"
      unfolding follows_iff
    proof (intro conjI allI impI)
      show "successively (\<lambda>u w. w \<in> succs ?dg u) (w # ws)" using ch p by simp
      fix i assume "i < length ws"
      then have "Suc i < n" using len p by simp
      from r [OF this] show "ws ! i \<in> step_sets g ! (Suc 0 + i)" using p by simp
    qed
    ultimately show "p \<in> set (all_paths_spec order g n)" unfolding mem using p by blast
  qed
qed

lemma all_paths_spec_distinct:
  assumes c: "constructed U g n" "\<not> is_disconnected g" and o: "order_ok order"
  shows "distinct (all_paths_spec order g n)"
proof -
  from c(1) have n: "2 \<le> n" by (simp add: constructed_def)
  have fin: "\<And>j. j < n \<Longrightarrow> finite (step_sets g ! j)"
    using constructed_step_sets(2) [OF c] .
  have d0: "distinct (order (step_sets g ! 0))"
    using fin [of 0] o n by (simp add: order_ok_def)
  show ?thesis
    unfolding all_paths_spec_def
  proof (rule distinct_concat_map)
    show "distinct (rev (order (step_sets g ! 0)))" using d0 by simp
    show "\<And>w. distinct (completions order g (n - 1) 0 w)"
    proof -
      fix w
      have lt: "0 + (n - 1) < n" using n by simp
      show "distinct (completions order g (n - 1) 0 w)"
        by (rule distinct_completions [OF o fin lt])
    qed
    fix w w' :: 'a assume ne: "w \<noteq> w'"
    have "\<And>c. c \<in> set (completions order g (n - 1) 0 w) \<Longrightarrow>
              c \<notin> set (completions order g (n - 1) 0 w')"
      using completions_hd [of _ order g "n - 1" 0] ne by metis
    then show "set (completions order g (n - 1) 0 w) \<inter> set (completions order g (n - 1) 0 w') = {}"
      by auto
  qed
qed

lemma reach_has_succ:
  assumes ok: "dedge_ok U dg" "finite A" "A \<subseteq> U" "finite Z" "Z \<subseteq> U"
    and j: "Suc j < n" and v: "v \<in> reach dg A Z n j"
  shows "\<exists>w \<in> reach dg A Z n (Suc j). w \<in> succs dg v"
proof -
  from v reach_pred_from_reach [OF ok j]
  obtain w where w: "w \<in> reach dg A Z n (Suc j)" "v \<in> preds dg w" by blast
  have "v \<in> U" "w \<in> U" using v w(1) reach_ok(2) [OF ok] by blast+
  then have "w \<in> succs dg v" using dedge_ok_sym [OF ok(1)] w(2) by simp
  with w(1) show ?thesis by blast
qed

lemma reach_has_pred:
  assumes ok: "dedge_ok U dg" "finite A" "A \<subseteq> U" "finite Z" "Z \<subseteq> U"
    and j: "Suc j < n" and w: "w \<in> reach dg A Z n (Suc j)"
  shows "\<exists>v \<in> reach dg A Z n j. w \<in> succs dg v \<and> v \<in> preds dg w"
proof -
  from w reach_Suc_from_reach [OF ok j]
  obtain v where v: "v \<in> reach dg A Z n j" "w \<in> succs dg v" by blast
  have "v \<in> U" "w \<in> U" using v(1) w reach_ok(2) [OF ok] by blast+
  then have "v \<in> preds dg w" using dedge_ok_sym [OF ok(1)] v(2) by simp
  with v show ?thesis by blast
qed

lemma choice_Inr:
  "xs \<noteq> [] \<Longrightarrow> \<exists>x r'. choice r xs = Inr (x, r') \<and> x \<in> set xs"
  by (simp add: choice_def)

lemma choice_order:
  assumes "order_ok order" "finite S" "S \<noteq> {}"
  shows "\<exists>x r'. choice r (order S) = Inr (x, r') \<and> x \<in> S"
proof -
  have s: "set (order S) = S" using assms(1,2) by (simp add: order_ok_def)
  then have "order S \<noteq> []" using assms(3) by auto
  from choice_Inr [OF this, of r] show ?thesis by (simp add: s)
qed

lemma constructed_ok:
  assumes "constructed U g n"
  shows "dedge_ok U (dedge g)" "finite (set (start_vertices g))" "set (start_vertices g) \<subseteq> U"
    "finite (set (end_vertices g))" "set (end_vertices g) \<subseteq> U"
  using assms by (simp_all add: constructed_def)

lemma fill_earlier_ok:
  assumes c: "constructed U g n" "\<not> is_disconnected g" and o: "order_ok order"
  shows "filled g n path i b \<Longrightarrow>
     \<exists>path' r'. fill_earlier order g (rev [1..int i]) path r = Inr (path', r')
        \<and> filled g n path' 0 b"
proof (induction i arbitrary: path r)
  case 0
  then show ?case by simp
next
  case (Suc i)
  note ok = constructed_ok [OF c(1)]
  let ?R = "reach (dedge g) (set (start_vertices g)) (set (end_vertices g)) n"
  from Suc.prems have len: "length path = n" and ib: "Suc i \<le> b" and bn: "b < n"
    and slots: "\<And>j. Suc i \<le> j \<Longrightarrow> j \<le> b \<Longrightarrow> \<exists>v. path ! j = Some v \<and> v \<in> step_sets g ! j"
    and edges: "\<And>j. Suc i \<le> j \<Longrightarrow> j < b \<Longrightarrow> the (path ! Suc j) \<in> succs (dedge g) (the (path ! j))"
    by (simp_all add: filled_def)
  have sin: "Suc i < n" using ib bn by simp
  from slots [of "Suc i"] ib obtain v where v: "path ! Suc i = Some v" "v \<in> step_sets g ! Suc i"
    by auto
  have vR: "v \<in> ?R (Suc i)" using v(2) constructed_step_sets(1) [OF c sin] by simp
  have vU: "v \<in> U" using vR reach_ok(2) [OF ok] by blast
  have si: "step_sets g ! i = ?R i" using constructed_step_sets(1) [OF c, of i] sin by simp
  have starts: "dedge_get_start_vertices (dedge g) v = Inr (preds (dedge g) v)"
    by (rule dedge_ok_preds(1) [OF ok(1) vU])
  let ?cands = "preds (dedge g) v \<inter> step_sets g ! i"
  have fin: "finite ?cands" using reach_ok(1) [OF ok, of n i] si by simp
  have ne: "?cands \<noteq> {}" using reach_has_pred [OF ok sin vR] si by auto
  from choice_order [OF o fin ne, of r] obtain u r' where
    ch: "choice r (order ?cands) = Inr (u, r')" and u: "u \<in> ?cands" by blast
  let ?path = "path[i := Some u]"
  have upto: "rev [1..int (Suc i)] = int (Suc i) # rev [1..int i]"
  proof -
    have "1 \<le> int (Suc i)" by simp
    from upto_rec2 [OF this] show ?thesis by simp
  qed
  have nat1: "nat (int (Suc i) - 1) = i" "nat (int (Suc i)) = Suc i" by simp_all
  have step: "fill_earlier order g (rev [1..int (Suc i)]) path r
      = fill_earlier order g (rev [1..int i]) ?path r'"
    unfolding upto fill_earlier.simps nat1 by (simp add: v(1) starts ch)
  have uU: "u \<in> U" using u si reach_ok(2) [OF ok, of n i] by auto
  have e: "v \<in> succs (dedge g) u" using dedge_ok_sym [OF ok(1) uU vU] u by simp
  have "filled g n ?path i b"
    unfolding filled_def
  proof (intro conjI allI impI)
    show "length ?path = n" using len by simp
    show "i \<le> b" using ib by simp
    show "b < n" by (fact bn)
  next
    fix j assume j: "i \<le> j \<and> j \<le> b"
    show "\<exists>v. ?path ! j = Some v \<and> v \<in> step_sets g ! j"
    proof (cases "j = i")
      case True
      then show ?thesis using u len sin by simp
    next
      case False
      with j have "Suc i \<le> j" by simp
      then show ?thesis using slots [of j] j False by simp
    qed
  next
    fix j assume j: "i \<le> j \<and> j < b"
    show "the (?path ! Suc j) \<in> succs (dedge g) (the (?path ! j))"
    proof (cases "j = i")
      case True
      then show ?thesis using e v(1) len sin by simp
    next
      case False
      with j have "Suc i \<le> j" by simp
      then show ?thesis using edges [of j] j False by simp
    qed
  qed
  from Suc.IH [OF this, of r'] show ?case by (simp only: step)
qed

lemma fill_later_ok:
  assumes c: "constructed U g n" "\<not> is_disconnected g" and o: "order_ok order"
  shows "filled g n path 0 b \<Longrightarrow>
     \<exists>path' r'. fill_later order g [int b..int (n - 1) - 1] path r = Inr (path', r')
        \<and> filled g n path' 0 (n - 1)"
proof (induction "n - b" arbitrary: b path r rule: less_induct)
  case less
  note ok = constructed_ok [OF c(1)]
  let ?R = "reach (dedge g) (set (start_vertices g)) (set (end_vertices g)) n"
  from less.prems have len: "length path = n" and bn: "b < n"
    and slots: "\<And>j. j \<le> b \<Longrightarrow> \<exists>v. path ! j = Some v \<and> v \<in> step_sets g ! j"
    and edges: "\<And>j. j < b \<Longrightarrow> the (path ! Suc j) \<in> succs (dedge g) (the (path ! j))"
    by (simp_all add: filled_def)
  show ?case
  proof (cases "Suc b < n")
    case False
    with bn have b: "b = n - 1" by simp
    then have "[int b..int (n - 1) - 1] = []" by simp
    then show ?thesis using less.prems b by simp
  next
    case True
    have upto: "[int b..int (n - 1) - 1] = int b # [int (Suc b)..int (n - 1) - 1]"
    proof -
      have "int b \<le> int (n - 1) - 1" using True by simp
      from upto_rec1 [OF this] show ?thesis by (simp add: add.commute)
    qed
    from slots [of b] obtain v where v: "path ! b = Some v" "v \<in> step_sets g ! b" by auto
    have vR: "v \<in> ?R b" using v(2) constructed_step_sets(1) [OF c bn] by simp
    have vU: "v \<in> U" using vR reach_ok(2) [OF ok] by blast
    have sb: "step_sets g ! Suc b = ?R (Suc b)" using constructed_step_sets(1) [OF c True] by simp
    have ends: "dedge_get_end_vertices (dedge g) v = Inr (succs (dedge g) v)"
      by (rule dedge_ok_succs(1) [OF ok(1) vU])
    let ?cands = "succs (dedge g) v \<inter> step_sets g ! Suc b"
    have fin: "finite ?cands" using reach_ok(1) [OF ok, of n "Suc b"] sb by simp
    have ne: "?cands \<noteq> {}" using reach_has_succ [OF ok True vR] sb by auto
    from choice_order [OF o fin ne, of r] obtain w r' where
      ch: "choice r (order ?cands) = Inr (w, r')" and w: "w \<in> ?cands" by blast
    let ?path = "path[Suc b := Some w]"
    have nat1: "nat (int b + 1) = Suc b" "nat (int b) = b" by simp_all
    have step: "fill_later order g [int b..int (n - 1) - 1] path r
        = fill_later order g [int (Suc b)..int (n - 1) - 1] ?path r'"
      unfolding upto fill_later.simps nat1 by (simp add: v(1) ends ch)
    have f: "filled g n ?path 0 (Suc b)"
      unfolding filled_def
    proof (intro conjI allI impI)
      show "length ?path = n" using len by simp
      show "0 \<le> Suc b" by simp
      show "Suc b < n" by (fact True)
    next
      fix j assume j: "0 \<le> j \<and> j \<le> Suc b"
      show "\<exists>v. ?path ! j = Some v \<and> v \<in> step_sets g ! j"
      proof (cases "j = Suc b")
        case True
        then show ?thesis using w len \<open>Suc b < n\<close> by simp
      next
        case False
        with j have "j \<le> b" by simp
        then show ?thesis using slots [of j] False by simp
      qed
    next
      fix j assume j: "0 \<le> j \<and> j < Suc b"
      show "the (?path ! Suc j) \<in> succs (dedge g) (the (?path ! j))"
      proof (cases "j = b")
        case jb: True
        then show ?thesis using w v(1) len True by simp
      next
        case False
        with j have "j < b" by simp
        then show ?thesis using edges [of j] by simp
      qed
    qed
    have "n - Suc b < n - b" using True by simp
    from less.hyps [OF this f, of r'] show ?thesis by (simp only: step)
  qed
qed

lemma filled_valid:
  assumes c: "constructed U g n" "\<not> is_disconnected g" and f: "filled g n path 0 (n - 1)"
  shows "\<exists>p. path = map Some p
           \<and> valid_path (dedge g) (start_vertices g) (end_vertices g) (int n) p"
proof -
  let ?R = "reach (dedge g) (set (start_vertices g)) (set (end_vertices g)) n"
  from c(1) have n: "2 \<le> n" by (simp add: constructed_def)
  from f have len: "length path = n"
    and slots: "\<And>j. j < n \<Longrightarrow> \<exists>v. path ! j = Some v \<and> v \<in> step_sets g ! j"
    and edges: "\<And>j. Suc j < n \<Longrightarrow> the (path ! Suc j) \<in> succs (dedge g) (the (path ! j))"
    by (auto simp: filled_def)
  define p where "p = map the path"
  have lp: "length p = n" using len by (simp add: p_def)
  have pj: "\<And>j. j < n \<Longrightarrow> path ! j = Some (p ! j) \<and> p ! j \<in> ?R j"
  proof -
    fix j assume j: "j < n"
    from slots [OF j] obtain v where "path ! j = Some v" "v \<in> step_sets g ! j" by blast
    then show "path ! j = Some (p ! j) \<and> p ! j \<in> ?R j"
      using j len constructed_step_sets(1) [OF c j] by (simp add: p_def)
  qed
  have eq: "path = map Some p"
    by (rule nth_equalityI) (use len lp pj in auto)
  have "p ! 0 \<in> fwd (dedge g) (set (start_vertices g)) 0" using pj [of 0] n by (simp add: reach_def)
  moreover have "hd p = p ! 0" using lp n by (subst hd_conv_nth) auto
  ultimately have h: "hd p \<in> set (start_vertices g)" by simp
  have "p ! (n - 1) \<in> bwd (dedge g) (set (end_vertices g)) 0"
    using pj [of "n - 1"] n by (simp add: reach_def)
  moreover have "last p = p ! (n - 1)" using lp n by (subst last_conv_nth) auto
  ultimately have l: "last p \<in> set (end_vertices g)" by simp
  have ch: "successively (\<lambda>u w. w \<in> succs (dedge g) u) p"
  proof (rule successively_nthI)
    fix i assume "Suc i < length p"
    then have i: "Suc i < n" using lp by simp
    from edges [OF i] pj [of i] pj [of "Suc i"] i
    show "p ! Suc i \<in> succs (dedge g) (p ! i)" by simp
  qed
  have "valid_path (dedge g) (start_vertices g) (end_vertices g) (int n) p"
    using lp h l ch n by (auto simp: valid_path_def)
  with eq show ?thesis by blast
qed

lemma reach_nonempty:
  assumes c: "constructed U g n" "\<not> is_disconnected g" and j: "j < n"
  shows "step_sets g ! j \<noteq> {}"
proof -
  note ok = constructed_ok [OF c(1)]
  from c have n: "2 \<le> n"
    and r0: "reach (dedge g) (set (start_vertices g)) (set (end_vertices g)) n 0 \<noteq> {}"
    by (simp_all add: constructed_def)
  then obtain v where "v \<in> reach (dedge g) (set (start_vertices g)) (set (end_vertices g)) n 0"
    by blast
  from reach_valid_path [OF ok(1,5) this] n obtain p where
    "valid_path (dedge g) (start_vertices g) (end_vertices g) (int n) p" by auto
  from valid_path_reach [OF ok(1,3) this j] show ?thesis
    using constructed_step_sets(1) [OF c j] by auto
qed

lemma get_random_path_ok:
  assumes c: "constructed U g n" "\<not> is_disconnected g" and o: "order_ok order"
  shows "\<exists>p r'. get_random_path order g r = Inr (map Some p, r')
           \<and> valid_path (dedge g) (start_vertices g) (end_vertices g) (int n) p"
proof -
  from c(1) have n: "2 \<le> n" "num_vertices g = int n" by (simp_all add: constructed_def)
  define s where "s = r 0 mod n"
  have sn: "s < n" using n(1) by (simp add: s_def)
  have ri: "randint r 0 (int n - 1) = Inr (int s, \<lambda>i. r (Suc i))"
    using n(1) by (simp add: randint_def s_def)
  have fin: "finite (step_sets g ! s)" by (rule constructed_step_sets(2) [OF c sn])
  from choice_order [OF o fin reach_nonempty [OF c sn], of "\<lambda>i. r (Suc i)"]
  obtain v r2 where ch: "choice (\<lambda>i. r (Suc i)) (order (step_sets g ! s)) = Inr (v, r2)"
    and v: "v \<in> step_sets g ! s" by blast
  let ?path = "(replicate n None)[s := Some v]"
  have f0: "filled g n ?path s s"
    using sn v by (auto simp: filled_def)
  from fill_earlier_ok [OF c o f0, of r2] obtain path1 r3 where
    fe: "fill_earlier order g (rev [1..int s]) ?path r2 = Inr (path1, r3)"
    and f1: "filled g n path1 0 s" by blast
  from fill_later_ok [OF c o f1, of r3] obtain path2 r4 where
    fl: "fill_later order g [int s..int (n - 1) - 1] path1 r3 = Inr (path2, r4)"
    and f2: "filled g n path2 0 (n - 1)" by blast
  have n2: "int n - 2 = int (n - 1) - 1" using n(1) by simp
  have "get_random_path order g r = Inr (path2, r4)"
    using c(2) fl by (simp add: get_random_path_def Let_def n(2) ri ch fe n2)
  with filled_valid [OF c f2] show ?thesis by blast
qed

section \<open>The claims about the path finder\<close>

lemma DirectedGraph_ok: "dedge_ok UNIV (DirectedGraph edges)"
  by (auto simp: dedge_ok_def DirectedGraph_def succs_def preds_def image_iff)

lemma sorted_list_of_set_ok: "order_ok (sorted_list_of_set :: 'a::linorder set \<Rightarrow> 'a list)"
  by (simp add: order_ok_def)

lemma init_succeeds:
  assumes "dedge_ok U dg" "order_ok order" "set sv \<subseteq> U" "set ev \<subseteq> U"
    "sv \<noteq> []" "ev \<noteq> []" "2 \<le> N"
  shows "\<exists>g. GraphPathFinder_init order sv ev N dg = Inr g"
proof -
  define n where "n = nat N"
  have Nn: "N = int n" and n2: "2 \<le> n" using assms(7) by (simp_all add: n_def)
  let ?g0 = "\<lparr>start_vertices = sv, end_vertices = ev, num_vertices = int n,
              dedge = dg, step_sets = [], is_disconnected = False\<rparr>"
  have "build_post ?g0 n (build_step_sets order ?g0)"
    by (rule build_step_sets_correct [where U = U]) (use assms n2 in simp_all)
  then obtain g where "build_step_sets order ?g0 = Inr g"
    by (auto simp: build_post_def split: sum.splits)
  then show ?thesis using assms(5,6,7) by (simp add: GraphPathFinder_init_def Nn)
qed

lemma get_all_paths_eq:
  assumes c: "constructed U g n" "\<not> is_disconnected g" and o: "order_ok order"
  shows "get_all_paths order g = Inr (map (map Some) (all_paths_spec order g n))"
  using generator_eq [OF c o] c(2) by (simp add: get_all_paths_def)

lemma constructed_disconnected_iff:
  assumes c: "constructed U g n"
  shows "\<not> is_disconnected g \<longleftrightarrow>
           (\<exists>p. valid_path (dedge g) (start_vertices g) (end_vertices g) (int n) p)"
proof -
  note ok = constructed_ok [OF c]
  from c have n: "0 < n" by (simp add: constructed_def)
  note r = reach_0_iff_path [OF ok(1,3,5) n]
  show ?thesis
  proof (cases "is_disconnected g")
    case True
    with c have "\<exists>k < n. reach (dedge g) (set (start_vertices g)) (set (end_vertices g)) n k = {}"
      by (simp add: constructed_def)
    with r(1) True show ?thesis by simp
  next
    case False
    with c have "reach (dedge g) (set (start_vertices g)) (set (end_vertices g)) n 0 \<noteq> {}"
      by (simp add: constructed_def)
    with r(2) False show ?thesis by simp
  qed
qed

text \<open>
  C1. For a path finder that was constructed successfully over a well-behaved edge getter:
  the disconnected flag is false exactly when a valid path exists (a tuple of
  \<open>N\<close> vertices from a start vertex to an end vertex whose consecutive vertices are
  connected); when the flag is false, \<^verbatim>\<open>get_all_paths\<close> yields at least one tuple
  and every tuple it yields is a valid path with no slot left \<^verbatim>\<open>None\<close>;
  when it is true, \<^verbatim>\<open>get_all_paths\<close> and \<^verbatim>\<open>get_random_path\<close> both raise the
  "disconnected" \<^verbatim>\<open>ValueError\<close>.
\<close>

theorem disconnected_iff_no_path:
  assumes "order_ok order" and "dedge_ok U dg" and "set sv \<subseteq> U" and "set ev \<subseteq> U"
    and "GraphPathFinder_init order sv ev N dg = Inr g"
  shows "(\<not> is_disconnected g \<longleftrightarrow> (\<exists>p. valid_path dg sv ev N p))
    \<and> (\<not> is_disconnected g \<longrightarrow>
          (\<exists>ps. get_all_paths order g = Inr ps \<and> ps \<noteq> []
             \<and> (\<forall>t \<in> set ps. \<exists>p. t = map Some p \<and> valid_path dg sv ev N p)))
    \<and> (is_disconnected g \<longrightarrow>
          get_all_paths order g = Inl (ValueError PathDisconnected)
          \<and> (\<forall>r. get_random_path order g r = Inl (ValueError PathDisconnected)))"
proof -
  from init_constructed [OF assms(2,1,3,4,5)] obtain n where
    n: "N = int n" and c: "constructed U g n" and f: "start_vertices g = sv" "end_vertices g = ev"
      "dedge g = dg" by blast
  have iff: "\<not> is_disconnected g \<longleftrightarrow> (\<exists>p. valid_path dg sv ev N p)"
    using constructed_disconnected_iff [OF c] by (simp add: f n)
  have yields: "\<exists>ps. get_all_paths order g = Inr ps \<and> ps \<noteq> []
      \<and> (\<forall>t \<in> set ps. \<exists>p. t = map Some p \<and> valid_path dg sv ev N p)"
    if nd: "\<not> is_disconnected g"
  proof -
    let ?ps = "map (map Some) (all_paths_spec order g n)"
    have set_eq: "set (all_paths_spec order g n) = {p. valid_path dg sv ev N p}"
      using all_paths_spec_set [OF c nd assms(1)] by (simp add: f n)
    from nd iff obtain p where "valid_path dg sv ev N p" by blast
    then have "p \<in> set (all_paths_spec order g n)" using set_eq by simp
    then have ne: "?ps \<noteq> []" by auto
    have al: "\<forall>t \<in> set ?ps. \<exists>p. t = map Some p \<and> valid_path dg sv ev N p"
      using set_eq by auto
    have eq: "get_all_paths order g = Inr ?ps" by (rule get_all_paths_eq [OF c nd assms(1)])
    from eq ne al show ?thesis by blast
  qed
  have raises: "get_all_paths order g = Inl (ValueError PathDisconnected)
      \<and> (\<forall>r. get_random_path order g r = Inl (ValueError PathDisconnected))"
    if "is_disconnected g"
    using that by (simp add: get_all_paths_def get_random_path_def)
  from iff yields raises show ?thesis by blast
qed

theorem disconnected_iff_no_path_witness:
  "order_ok (sorted_list_of_set :: nat set \<Rightarrow> nat list) \<and> dedge_ok UNIV self_loops
   \<and> set [1::nat] \<subseteq> UNIV \<and> set [3::nat] \<subseteq> UNIV
   \<and> (\<exists>g. GraphPathFinder_init sorted_list_of_set [1] [3] 5 self_loops = Inr g
          \<and> \<not> is_disconnected g
          \<and> valid_path self_loops [1] [3] 5 [1, 2, 2, 2, 3]
          \<and> (\<exists>ps. get_all_paths sorted_list_of_set g = Inr ps \<and> ps \<noteq> []
                \<and> (\<exists>p. hd ps = map Some p \<and> valid_path self_loops [1] [3] 5 p)))"
proof -
  have o: "order_ok (sorted_list_of_set :: nat set \<Rightarrow> nat list)" by (rule sorted_list_of_set_ok)
  have d: "dedge_ok UNIV self_loops" unfolding self_loops_def by (rule DirectedGraph_ok)
  have s: "set [1::nat] \<subseteq> UNIV" "set [3::nat] \<subseteq> UNIV" by simp_all
  have "\<exists>g. GraphPathFinder_init sorted_list_of_set [1] [3] 5 self_loops = Inr g"
    by (rule init_succeeds [OF d o s]) simp_all
  then obtain g where
    g: "GraphPathFinder_init sorted_list_of_set [1] [3] 5 self_loops = Inr g" ..
  have v: "valid_path self_loops [1] [3] 5 [1, 2, 2, 2, 3]"
    by (simp add: valid_path_def succs_def self_loops_def DirectedGraph_def)
  from disconnected_iff_no_path [OF o d s g] v obtain ps where
    ps: "get_all_paths sorted_list_of_set g = Inr ps" "ps \<noteq> []"
      "\<forall>t \<in> set ps. \<exists>p. t = map Some p \<and> valid_path self_loops [1] [3] 5 p"
    and nd: "\<not> is_disconnected g" by blast
  from ps(2) have "hd ps \<in> set ps" by simp
  with ps(3) have "\<exists>p. hd ps = map Some p \<and> valid_path self_loops [1] [3] 5 p" by blast
  with o d s g nd v ps(1,2) show ?thesis by blast
qed

lemma self_loops_finder:
  "\<exists>g. GraphPathFinder_init sorted_list_of_set [1] [3] 5 self_loops = Inr g
      \<and> step_sets g = [{1}, {2}, {2, 3}, {2, 3}, {3}] \<and> \<not> is_disconnected g"
proof -
  have "map_sum id (\<lambda>g. (step_sets g, is_disconnected g))
          (GraphPathFinder_init sorted_list_of_set [1] [3] 5 self_loops)
        = Inr ([{1}, {2}, {2, 3}, {2, 3}, {3}], False)"
    by code_simp
  then show ?thesis
    by (cases "GraphPathFinder_init sorted_list_of_set [1] [3] 5 self_loops") auto
qed

lemma constructed_links:
  assumes c: "constructed U g n" "\<not> is_disconnected g" and v: "v \<in> step_sets g ! j" "j < n"
  shows "Suc j < n \<Longrightarrow> \<exists>w \<in> step_sets g ! Suc j. w \<in> succs (dedge g) v"
    and "0 < j \<Longrightarrow> \<exists>u \<in> step_sets g ! (j - 1). v \<in> succs (dedge g) u \<and> u \<in> preds (dedge g) v"
proof -
  note ok = constructed_ok [OF c(1)]
  note ss = constructed_step_sets(1) [OF c]
  show "\<exists>w \<in> step_sets g ! Suc j. w \<in> succs (dedge g) v" if sj: "Suc j < n"
    using reach_has_succ [OF ok sj] v ss [OF v(2)] ss [OF sj] by simp
  show "\<exists>u \<in> step_sets g ! (j - 1). v \<in> succs (dedge g) u \<and> u \<in> preds (dedge g) v" if j0: "0 < j"
  proof -
    from j0 obtain k where k: "j = Suc k" by (cases j) auto
    have kn: "k < n" using v(2) k by simp
    show ?thesis
      using reach_has_pred [OF ok v(2) [unfolded k]] v(1) ss [OF v(2)] ss [OF kn]
      by (simp add: k)
  qed
qed

text \<open>
  C2. After a construction that ends with the flag false, every vertex of step set \<open>i\<close> has
  a successor in step set \<open>i + 1\<close> (when \<open>i < N - 1\<close>) and a predecessor in step set
  \<open>i - 1\<close> (when \<open>0 < i\<close>); the edge is listed by the getter in both directions.
\<close>

theorem step_sets_linked:
  assumes "order_ok order" and "dedge_ok U dg" and "set sv \<subseteq> U" and "set ev \<subseteq> U"
    and "GraphPathFinder_init order sv ev N dg = Inr g" and "\<not> is_disconnected g"
  shows "\<forall>i. 0 \<le> i \<and> i < N \<longrightarrow>
           (\<forall>v \<in> step_sets g ! nat i.
              (i < N - 1 \<longrightarrow> (\<exists>w \<in> step_sets g ! nat (i + 1). w \<in> succs dg v))
            \<and> (0 < i \<longrightarrow> (\<exists>u \<in> step_sets g ! nat (i - 1). v \<in> succs dg u \<and> u \<in> preds dg v)))"
proof (intro allI impI ballI conjI)
  from init_constructed [OF assms(2,1,3,4,5)] obtain n where
    n: "N = int n" and c: "constructed U g n" and f: "dedge g = dg" by blast
  fix i v assume i: "0 \<le> i \<and> i < N" and v: "v \<in> step_sets g ! nat i"
  have j: "nat i < n" using i n by (auto simp: nat_less_iff)
  note l = constructed_links [OF c assms(6) v j]
  show "\<exists>w \<in> step_sets g ! nat (i + 1). w \<in> succs dg v" if "i < N - 1"
  proof -
    have "Suc (nat i) < n" using that i n by simp
    from l(1) [OF this] show ?thesis using i by (simp add: f nat_add_distrib)
  qed
  show "\<exists>u \<in> step_sets g ! nat (i - 1). v \<in> succs dg u \<and> u \<in> preds dg v" if "0 < i"
  proof -
    have "0 < nat i" using that by simp
    from l(2) [OF this] show ?thesis using that by (simp add: f nat_diff_distrib)
  qed
qed

theorem step_sets_linked_witness:
  "order_ok (sorted_list_of_set :: nat set \<Rightarrow> nat list) \<and> dedge_ok UNIV self_loops
   \<and> set [1::nat] \<subseteq> UNIV \<and> set [3::nat] \<subseteq> UNIV
   \<and> (\<exists>g. GraphPathFinder_init sorted_list_of_set [1] [3] 5 self_loops = Inr g
          \<and> \<not> is_disconnected g
          \<and> 2 \<in> step_sets g ! nat 1
          \<and> (\<exists>w \<in> step_sets g ! nat (1 + 1). w \<in> succs self_loops 2)
          \<and> (\<exists>u \<in> step_sets g ! nat (1 - 1). 2 \<in> succs self_loops u \<and> u \<in> preds self_loops 2))"
proof -
  have o: "order_ok (sorted_list_of_set :: nat set \<Rightarrow> nat list)" by (rule sorted_list_of_set_ok)
  have d: "dedge_ok UNIV self_loops" unfolding self_loops_def by (rule DirectedGraph_ok)
  have s: "set [1::nat] \<subseteq> UNIV" "set [3::nat] \<subseteq> UNIV" by simp_all
  from self_loops_finder obtain g where
    g: "GraphPathFinder_init sorted_list_of_set [1] [3] 5 self_loops = Inr g"
    and ss: "step_sets g = [{1}, {2}, {2, 3}, {2, 3}, {3}]" and nd: "\<not> is_disconnected g" by blast
  have m: "2 \<in> step_sets g ! nat 1" by (simp add: ss)
  note t = step_sets_linked [OF o d s g nd]
  have "0 \<le> (1::int) \<and> (1::int) < 5 \<longrightarrow>
           (\<forall>v \<in> step_sets g ! nat 1.
              ((1::int) < 5 - 1 \<longrightarrow> (\<exists>w \<in> step_sets g ! nat (1 + 1). w \<in> succs self_loops v))
            \<and> ((0::int) < 1 \<longrightarrow> (\<exists>u \<in> step_sets g ! nat (1 - 1). v \<in> succs self_loops u \<and> u \<in> preds self_loops v)))"
    using t by (rule spec)
  then have "\<forall>v \<in> step_sets g ! nat 1.
              (\<exists>w \<in> step_sets g ! nat (1 + 1). w \<in> succs self_loops v)
            \<and> (\<exists>u \<in> step_sets g ! nat (1 - 1). v \<in> succs self_loops u \<and> u \<in> preds self_loops v)"
    by simp
  from bspec [OF this m]
  have "(\<exists>w \<in> step_sets g ! nat (1 + 1). w \<in> succs self_loops 2)
      \<and> (\<exists>u \<in> step_sets g ! nat (1 - 1). 2 \<in> succs self_loops u \<and> u \<in> preds self_loops 2)" .
  with o d s g nd m show ?thesis by blast
qed

lemma valid_path_nth:
  assumes "valid_path dg sv ev n p"
  shows "int (length p) = n" and "p \<noteq> []" and "hd p \<in> set sv" and "last p \<in> set ev"
    and "\<And>i. Suc i < length p \<Longrightarrow> p ! Suc i \<in> succs dg (p ! i)"
  using assms successively_nth [of "\<lambda>u w. w \<in> succs dg u" p]
  by (simp_all add: valid_path_def)

lemma constructed_ends:
  assumes c: "constructed U g n" "\<not> is_disconnected g"
    and p: "valid_path (dedge g) (start_vertices g) (end_vertices g) (int n) p"
  shows "hd p \<in> step_sets g ! 0" and "last p \<in> step_sets g ! (n - 1)"
proof -
  note ok = constructed_ok [OF c(1)]
  from c(1) have n: "2 \<le> n" by (simp add: constructed_def)
  from p have len: "length p = n" by (simp add: valid_path_def)
  have r: "\<And>j. j < n \<Longrightarrow> p ! j \<in> step_sets g ! j"
    using valid_path_reach [OF ok(1,3) p] constructed_step_sets(1) [OF c] by simp
  have "hd p = p ! 0" using len n by (subst hd_conv_nth) auto
  then show "hd p \<in> step_sets g ! 0" using r [of 0] n by simp
  have "last p = p ! (n - 1)" using len n by (subst last_conv_nth) auto
  then show "last p \<in> step_sets g ! (n - 1)" using r [of "n - 1"] n by simp
qed

lemma distinct_count_list_1: "distinct xs \<Longrightarrow> x \<in> set xs \<Longrightarrow> count_list xs x = 1"
  by (induction xs) auto

text \<open>
  C3. On a connected path finder \<^verbatim>\<open>get_all_paths\<close> enumerates exactly the valid paths:
  every yielded tuple has \<open>N\<close> vertices (no slot is left \<^verbatim>\<open>None\<close>), starts in step
  set \<open>0\<close>, ends in step set \<open>N - 1\<close> and follows edges of the getter; the yielded tuples
  are the valid paths, and every valid path is yielded exactly once.
\<close>

theorem get_all_paths_exact:
  assumes "order_ok order" and "dedge_ok U dg" and "set sv \<subseteq> U" and "set ev \<subseteq> U"
    and "GraphPathFinder_init order sv ev N dg = Inr g" and "\<not> is_disconnected g"
  shows "\<exists>ps. get_all_paths order g = Inr ps
           \<and> (\<forall>t \<in> set ps. \<exists>p. t = map Some p \<and> int (length p) = N
                  \<and> hd p \<in> step_sets g ! 0 \<and> last p \<in> step_sets g ! nat (N - 1)
                  \<and> (\<forall>i. Suc i < length p \<longrightarrow> p ! Suc i \<in> succs dg (p ! i)))
           \<and> set ps = map Some ` {p. valid_path dg sv ev N p}
           \<and> (\<forall>p. valid_path dg sv ev N p \<longrightarrow> count_list ps (map Some p) = 1)"
proof -
  from init_constructed [OF assms(2,1,3,4,5)] obtain n where
    n: "N = int n" and c: "constructed U g n" and f: "start_vertices g = sv" "end_vertices g = ev"
      "dedge g = dg" by blast
  let ?ps = "map (map Some) (all_paths_spec order g n)"
  note nd = assms(6)
  have eq: "get_all_paths order g = Inr ?ps" by (rule get_all_paths_eq [OF c nd assms(1)])
  have set_eq: "set (all_paths_spec order g n) = {p. valid_path dg sv ev N p}"
    using all_paths_spec_set [OF c nd assms(1)] by (simp add: f n)
  have dist: "distinct ?ps"
    using all_paths_spec_distinct [OF c nd assms(1)] by (simp add: distinct_map inj_on_def)
  have a: "\<forall>t \<in> set ?ps. \<exists>p. t = map Some p \<and> int (length p) = N
                  \<and> hd p \<in> step_sets g ! 0 \<and> last p \<in> step_sets g ! nat (N - 1)
                  \<and> (\<forall>i. Suc i < length p \<longrightarrow> p ! Suc i \<in> succs dg (p ! i))"
  proof
    fix t assume "t \<in> set ?ps"
    then obtain p where t: "t = map Some p" and v: "valid_path dg sv ev N p"
      using set_eq by auto
    have v': "valid_path (dedge g) (start_vertices g) (end_vertices g) (int n) p"
      using v by (simp add: f n)
    have "nat (N - 1) = n - 1" using n by simp
    then show "\<exists>p. t = map Some p \<and> int (length p) = N
                  \<and> hd p \<in> step_sets g ! 0 \<and> last p \<in> step_sets g ! nat (N - 1)
                  \<and> (\<forall>i. Suc i < length p \<longrightarrow> p ! Suc i \<in> succs dg (p ! i))"
      using t valid_path_nth(1,5) [OF v] constructed_ends [OF c nd v'] by auto
  qed
  have b: "set ?ps = map Some ` {p. valid_path dg sv ev N p}" using set_eq by simp
  have "\<forall>p. valid_path dg sv ev N p \<longrightarrow> count_list ?ps (map Some p) = 1"
  proof (intro allI impI)
    fix p assume "valid_path dg sv ev N p"
    then have "map Some p \<in> set ?ps" using b by blast
    with dist show "count_list ?ps (map Some p) = 1" by (rule distinct_count_list_1)
  qed
  with eq a b show ?thesis by blast
qed

theorem get_all_paths_exact_witness:
  "order_ok (sorted_list_of_set :: nat set \<Rightarrow> nat list) \<and> dedge_ok UNIV self_loops
   \<and> set [1::nat] \<subseteq> UNIV \<and> set [3::nat] \<subseteq> UNIV
   \<and> (\<exists>g. GraphPathFinder_init sorted_list_of_set [1] [3] 5 self_loops = Inr g
          \<and> \<not> is_disconnected g
          \<and> valid_path self_loops [1] [3] 5 [1, 2, 3, 2, 3]
          \<and> (\<exists>ps. get_all_paths sorted_list_of_set g = Inr ps
                \<and> count_list ps (map Some [1, 2, 3, 2, 3]) = 1))"
proof -
  have o: "order_ok (sorted_list_of_set :: nat set \<Rightarrow> nat list)" by (rule sorted_list_of_set_ok)
  have d: "dedge_ok UNIV self_loops" unfolding self_loops_def by (rule DirectedGraph_ok)
  have s: "set [1::nat] \<subseteq> UNIV" "set [3::nat] \<subseteq> UNIV" by simp_all
  from self_loops_finder obtain g where
    g: "GraphPathFinder_init sorted_list_of_set [1] [3] 5 self_loops = Inr g"
    and nd: "\<not> is_disconnected g" by blast
  have v: "valid_path self_loops [1] [3] 5 [1, 2, 3, 2, 3]"
    by (simp add: valid_path_def succs_def self_loops_def DirectedGraph_def)
  from get_all_paths_exact [OF o d s g nd] v o d g nd show ?thesis by blast
qed

text \<open>
  C4. On a connected path finder, whatever the random source draws, \<^verbatim>\<open>get_random_path\<close>
  returns a tuple, and that tuple is among those yielded by \<^verbatim>\<open>get_all_paths\<close>.
\<close>

theorem random_path_is_enumerated:
  assumes "order_ok order" and "dedge_ok U dg" and "set sv \<subseteq> U" and "set ev \<subseteq> U"
    and "GraphPathFinder_init order sv ev N dg = Inr g" and "\<not> is_disconnected g"
  shows "\<forall>r. \<exists>t r' ps. get_random_path order g r = Inr (t, r')
           \<and> get_all_paths order g = Inr ps \<and> t \<in> set ps"
proof
  fix r
  from init_constructed [OF assms(2,1,3,4,5)] obtain n where
    c: "constructed U g n" by blast
  note nd = assms(6)
  from get_random_path_ok [OF c nd assms(1), of r] obtain p r' where
    rp: "get_random_path order g r = Inr (map Some p, r')"
    and v: "valid_path (dedge g) (start_vertices g) (end_vertices g) (int n) p" by blast
  have "p \<in> set (all_paths_spec order g n)"
    using all_paths_spec_set [OF c nd assms(1)] v by simp
  then have "map Some p \<in> set (map (map Some) (all_paths_spec order g n))" by simp
  with rp get_all_paths_eq [OF c nd assms(1)]
  show "\<exists>t r' ps. get_random_path order g r = Inr (t, r')
           \<and> get_all_paths order g = Inr ps \<and> t \<in> set ps" by blast
qed

theorem random_path_is_enumerated_witness:
  "order_ok (sorted_list_of_set :: nat set \<Rightarrow> nat list) \<and> dedge_ok UNIV self_loops
   \<and> set [1::nat] \<subseteq> UNIV \<and> set [3::nat] \<subseteq> UNIV
   \<and> (\<exists>g. GraphPathFinder_init sorted_list_of_set [1] [3] 5 self_loops = Inr g
          \<and> \<not> is_disconnected g
          \<and> (\<exists>t r' ps. get_random_path sorted_list_of_set g (\<lambda>i. 1) = Inr (t, r')
                \<and> get_all_paths sorted_list_of_set g = Inr ps \<and> t \<in> set ps))"
proof -
  have o: "order_ok (sorted_list_of_set :: nat set \<Rightarrow> nat list)" by (rule sorted_list_of_set_ok)
  have d: "dedge_ok UNIV self_loops" unfolding self_loops_def by (rule DirectedGraph_ok)
  have s: "set [1::nat] \<subseteq> UNIV" "set [3::nat] \<subseteq> UNIV" by simp_all
  from self_loops_finder obtain g where
    g: "GraphPathFinder_init sorted_list_of_set [1] [3] 5 self_loops = Inr g"
    and nd: "\<not> is_disconnected g" by blast
  from random_path_is_enumerated [OF o d s g nd] o d g nd show ?thesis by blast
qed



section \<open>The claims about the sequence creator\<close>

lemma start_overlap_loop_succeeds:
  "\<forall>ng \<in> set ngs. py_len ng = ls \<Longrightarrow> \<exists>r. start_overlap_loop m ngs lo ls = Inr r"
  by (induction ngs arbitrary: m) simp_all

lemma end_overlap_loop_succeeds:
  "\<forall>ng \<in> set ngs. py_len ng = le \<Longrightarrow> \<exists>r. end_overlap_loop m ngs lo le = Inr r"
  by (induction ngs arbitrary: m) simp_all

lemma DirectedEdgeGetter_init_succeeds:
  assumes "S \<noteq> []" "E \<noteq> []" "2 \<le> py_len (hd S)" "2 \<le> py_len (hd E)"
    "\<forall>s \<in> set S. py_len s = py_len (hd S)" "\<forall>e \<in> set E. py_len e = py_len (hd E)"
  shows "\<exists>d. DirectedEdgeGetter_init S E = Inr d"
proof -
  let ?lo = "min (py_len (hd S)) (py_len (hd E)) - 1"
  from start_overlap_loop_succeeds [OF assms(5), of Map.empty ?lo]
  obtain sd where sd: "get_start_overlap_dict S ?lo (py_len (hd S)) = Inr sd"
    by (auto simp: get_start_overlap_dict_def)
  from end_overlap_loop_succeeds [OF assms(6), of Map.empty ?lo]
  obtain ed where ed: "get_end_overlap_dict E ?lo (py_len (hd E)) = Inr ed"
    by (auto simp: get_end_overlap_dict_def)
  show ?thesis using assms(1-4) sd ed
    by (simp add: DirectedEdgeGetter_init_def Let_def)
qed

lemma get_end_vertices_overlaps:
  assumes "DirectedEdgeGetter_init S E = Inr d" and "s \<in> set S"
  shows "get_end_vertices d s = Inr {e \<in> set E. overlaps d s e}"
proof -
  have "\<And>e. (slice_to (len_overlap d) e = slice_from (- len_overlap d) s) = overlaps d s e"
    unfolding overlaps_def by (rule eq_commute)
  then show ?thesis using get_end_vertices_pool [OF assms] by simp
qed

lemma get_start_vertices_overlaps:
  assumes "DirectedEdgeGetter_init S E = Inr d" and "e \<in> set E"
  shows "get_start_vertices d e = Inr {s \<in> set S. overlaps d s e}"
  using get_start_vertices_pool [OF assms] by (simp add: overlaps_def)

lemma as_dedge_lookups:
  assumes "DirectedEdgeGetter_init M M = Inr mm" "u \<in> set M"
  shows "dedge_get_end_vertices (as_dedge mm) u = Inr {v \<in> set M. overlaps mm u v}"
    and "dedge_get_start_vertices (as_dedge mm) u = Inr {s \<in> set M. overlaps mm s u}"
    and "succs (as_dedge mm) u = {v \<in> set M. overlaps mm u v}"
    and "preds (as_dedge mm) u = {s \<in> set M. overlaps mm s u}"
  by (simp_all add: succs_def preds_def as_dedge_def get_end_vertices_overlaps [OF assms]
        get_start_vertices_overlaps [OF assms])

lemma as_dedge_ok:
  assumes "DirectedEdgeGetter_init M M = Inr mm"
  shows "dedge_ok (set M) (as_dedge mm)"
  unfolding dedge_ok_def
proof (intro conjI ballI)
  fix u assume u: "u \<in> set M"
  show "\<exists>S. dedge_get_end_vertices (as_dedge mm) u = Inr S \<and> finite S \<and> S \<subseteq> set M"
    by (simp add: as_dedge_lookups(1) [OF assms u])
  show "\<exists>S. dedge_get_start_vertices (as_dedge mm) u = Inr S \<and> finite S \<and> S \<subseteq> set M"
    by (simp add: as_dedge_lookups(2) [OF assms u])
  fix v assume v: "v \<in> set M"
  show "v \<in> succs (as_dedge mm) u \<longleftrightarrow> u \<in> preds (as_dedge mm) v"
    by (simp add: as_dedge_lookups(3) [OF assms u] as_dedge_lookups(4) [OF assms v] u v)
qed

lemma expand_update_leading:
  assumes "DirectedEdgeGetter_init L M = Inr l2m"
  shows "expand_update (set M) L (get_end_vertices l2m) = Inr (middle_after_leading l2m L M)"
    and "middle_after_leading l2m L M = {m \<in> set M. \<exists>l \<in> set L. overlaps l2m l m}"
proof -
  have e: "expand L (get_end_vertices l2m) = Inr (\<Union>l \<in> set L. {m \<in> set M. overlaps l2m l m})"
    by (rule expand_Inr) (rule get_end_vertices_overlaps [OF assms])
  show m: "middle_after_leading l2m L M = {m \<in> set M. \<exists>l \<in> set L. overlaps l2m l m}"
  proof -
    have "\<And>l m. l \<in> set L \<Longrightarrow>
        (case get_end_vertices l2m l of Inl e \<Rightarrow> False | Inr S \<Rightarrow> m \<in> S)
          \<longleftrightarrow> m \<in> set M \<and> overlaps l2m l m"
      by (simp add: get_end_vertices_overlaps [OF assms])
    then show ?thesis unfolding middle_after_leading_def by blast
  qed
  show "expand_update (set M) L (get_end_vertices l2m) = Inr (middle_after_leading l2m L M)"
    unfolding m expand_update_def e by auto
qed

lemma expand_update_trailing:
  assumes "DirectedEdgeGetter_init M T = Inr m2t"
  shows "expand_update (set M) T (get_start_vertices m2t) = Inr (middle_before_trailing m2t M T)"
    and "middle_before_trailing m2t M T = {m \<in> set M. \<exists>t \<in> set T. overlaps m2t m t}"
proof -
  have e: "expand T (get_start_vertices m2t) = Inr (\<Union>t \<in> set T. {m \<in> set M. overlaps m2t m t})"
    by (rule expand_Inr) (rule get_start_vertices_overlaps [OF assms])
  show m: "middle_before_trailing m2t M T = {m \<in> set M. \<exists>t \<in> set T. overlaps m2t m t}"
  proof -
    have "\<And>t m. t \<in> set T \<Longrightarrow>
        (case get_start_vertices m2t t of Inl e \<Rightarrow> False | Inr S \<Rightarrow> m \<in> S)
          \<longleftrightarrow> m \<in> set M \<and> overlaps m2t m t"
      by (simp add: get_start_vertices_overlaps [OF assms])
    then show ?thesis unfolding middle_before_trailing_def by blast
  qed
  show "expand_update (set M) T (get_start_vertices m2t) = Inr (middle_before_trailing m2t M T)"
    unfolding m expand_update_def e by auto
qed

lemma middle_dedge_exists:
  assumes "DirectedEdgeGetter_init L M = Inr l2m"
  shows "\<exists>mm. DirectedEdgeGetter_init M M = Inr mm"
proof -
  note i = DirectedEdgeGetter_init_Inr [OF assms]
  have u: "\<forall>e \<in> set M. py_len e = py_len (hd M)" using i(9) unfolding i(4) .
  have b: "2 \<le> py_len (hd M)" using i(6) unfolding i(4) .
  show ?thesis by (rule DirectedEdgeGetter_init_succeeds [OF i(2) i(2) b b u u])
qed



lemma pools_finite:
  "finite (middle_after_leading l2m L M)" "finite (middle_before_trailing m2t M T)"
  by (simp_all add: middle_after_leading_def middle_before_trailing_def)

lemma order_nonempty:
  "order_ok order \<Longrightarrow> finite S \<Longrightarrow> S \<noteq> {} \<Longrightarrow> order S \<noteq> []"
  by (auto simp: order_ok_def)

text \<open>
  C10. When both middle sets are non-empty and the requested length needs fewer than one
  middle vertex, the constructor raises the \<^verbatim>\<open>ValueError\<close> of the path finder's
  check that the number of vertices is at least two.
\<close>

theorem too_short_length_raises:
  assumes "order_ok order"
    and "DirectedEdgeGetter_init leading middle = Inr l2m"
    and "DirectedEdgeGetter_init middle trailing = Inr m2t"
    and "middle_after_leading l2m leading middle \<noteq> {}"
    and "middle_before_trailing m2t middle trailing \<noteq> {}"
    and "get_num_middle_vertices n (py_len (hd leading)) (py_len (hd middle))
           (py_len (hd trailing)) < 1"
  shows "SequenceCreator_init order n leading middle trailing = Inl (ValueError TooFewVertices)"
proof -
  let ?sv = "middle_after_leading l2m leading middle"
  let ?ev = "middle_before_trailing m2t middle trailing"
  let ?num = "get_num_middle_vertices n (py_len (hd leading)) (py_len (hd middle))
           (py_len (hd trailing))"
  from middle_dedge_exists [OF assms(2)] obtain mm where
    mm: "DirectedEdgeGetter_init middle middle = Inr mm" ..
  have c: "card ?sv \<noteq> 0" "card ?ev \<noteq> 0"
    using assms(4,5) by (simp_all add: pools_finite card_gt_0_iff)
  have ne: "order ?sv \<noteq> []" "order ?ev \<noteq> []"
    using order_nonempty [OF assms(1) pools_finite(1) assms(4)]
      order_nonempty [OF assms(1) pools_finite(2) assms(5)] by blast+
  have "GraphPathFinder_init order (order ?sv) (order ?ev) ?num (as_dedge mm)
      = Inl (ValueError TooFewVertices)"
    using ne assms(6) by (simp add: GraphPathFinder_init_def)
  then have "multi_middle_vertex_init order l2m m2t ?sv ?ev middle ?num
      = Inl (ValueError TooFewVertices)"
    by (simp add: multi_middle_vertex_init_def mm)
  then show ?thesis
    using c assms(6)
    by (simp add: SequenceCreator_init_def assms(2,3) expand_update_leading(1) [OF assms(2)]
          expand_update_trailing(1) [OF assms(3)] Let_def)
qed

theorem too_short_length_raises_witness:
  "order_ok (sorted_list_of_set :: string set \<Rightarrow> string list)
   \<and> (\<exists>l2m m2t. DirectedEdgeGetter_init [''ax''] [''xx''] = Inr l2m
         \<and> DirectedEdgeGetter_init [''xx''] [''x1''] = Inr m2t
         \<and> middle_after_leading l2m [''ax''] [''xx''] \<noteq> {}
         \<and> middle_before_trailing m2t [''xx''] [''x1''] \<noteq> {})
   \<and> get_num_middle_vertices 3 (py_len (hd [''ax''])) (py_len (hd [''xx'']))
        (py_len (hd [''x1''])) < 1
   \<and> SequenceCreator_init sorted_list_of_set 3 [''ax''] [''xx''] [''x1'']
        = Inl (ValueError TooFewVertices)"
proof -
  have o: "order_ok (sorted_list_of_set :: string set \<Rightarrow> string list)"
    by (rule sorted_list_of_set_ok)
  have "\<exists>a. DirectedEdgeGetter_init [''ax''] [''xx''] = Inr a"
    by (rule DirectedEdgeGetter_init_succeeds) (simp_all add: py_len_def)
  moreover have "\<exists>b. DirectedEdgeGetter_init [''xx''] [''x1''] = Inr b"
    by (rule DirectedEdgeGetter_init_succeeds) (simp_all add: py_len_def)
  ultimately obtain a b where a: "DirectedEdgeGetter_init [''ax''] [''xx''] = Inr a"
    and b: "DirectedEdgeGetter_init [''xx''] [''x1''] = Inr b" by blast
  have lo: "len_overlap a = 1" "len_overlap b = 1"
    using DirectedEdgeGetter_init_Inr(3,4,7) [OF a] DirectedEdgeGetter_init_Inr(3,4,7) [OF b]
    by (simp_all add: py_len_def)
  have s: "middle_after_leading a [''ax''] [''xx''] \<noteq> {}"
    unfolding expand_update_leading(2) [OF a]
    by (auto simp: overlaps_def lo slice_from_def slice_to_def py_len_def)
  have e: "middle_before_trailing b [''xx''] [''x1''] \<noteq> {}"
    unfolding expand_update_trailing(2) [OF b]
    by (auto simp: overlaps_def lo slice_from_def slice_to_def py_len_def)
  have k: "get_num_middle_vertices 3 (py_len (hd [''ax''])) (py_len (hd [''xx'']))
        (py_len (hd [''x1''])) < 1"
    by (simp add: get_num_middle_vertices_def get_len_single_middle_vertex_def py_len_def)
  from too_short_length_raises [OF o a b s e k] o a b s e k show ?thesis by blast
qed

lemma concat_ngram_list_glue: "concat_ngram_list (x # xs) = Inr (glue x xs)"
  by (simp add: concat_ngram_list_Cons glue_def)

lemma for_yield_Inr:
  assumes "\<And>x. x \<in> set xs \<Longrightarrow> body x = Inr (f x)"
  shows "for_yield xs body = Inr (concat (map f xs))"
  using assms by (induction xs) simp_all

lemma those_map_Some: "those (map Some p) = Some p"
  by (induction p) simp_all

lemma join_sequence_Some: "join_sequence l (map Some p) t = Inr (glue l (p @ [t]))"
  by (simp add: join_sequence_def those_map_Some concat_ngram_list_glue)

lemma leading_of_Some:
  assumes "DirectedEdgeGetter_init L M = Inr l2m" "p \<noteq> []" "hd p \<in> set M"
  shows "leading_of l2m (map Some p) = Inr {l \<in> set L. overlaps l2m l (hd p)}"
  using assms(2) get_start_vertices_overlaps [OF assms(1,3)]
  by (cases p) (simp_all add: leading_of_def)

lemma trailing_of_Some:
  assumes "DirectedEdgeGetter_init M T = Inr m2t" "p \<noteq> []" "last p \<in> set M"
  shows "trailing_of m2t (map Some p) = Inr {t \<in> set T. overlaps m2t (last p) t}"
proof -
  from assms(2) obtain x xs where p: "p = x # xs" by (cases p) auto
  have "last (map Some p) = Some (last p)" using assms(2) by (simp add: last_map)
  then show ?thesis
    using get_end_vertices_overlaps [OF assms(1,3)] by (simp add: trailing_of_def p)
qed

lemma set_path_sequences:
  assumes "order_ok order"
  shows "set (path_sequences order l2m m2t L T p) =
     {s. \<exists>l \<in> set L. \<exists>t \<in> set T.
           overlaps l2m l (hd p) \<and> overlaps m2t (last p) t \<and> s = glue l (p @ [t])}"
proof -
  have a: "set (order {l \<in> set L. overlaps l2m l (hd p)}) = {l \<in> set L. overlaps l2m l (hd p)}"
    using assms by (simp add: order_ok_def)
  have b: "set (order {t \<in> set T. overlaps m2t (last p) t}) = {t \<in> set T. overlaps m2t (last p) t}"
    using assms by (simp add: order_ok_def)
  show ?thesis by (auto simp: path_sequences_def a b)
qed

lemma all_sequences_loop:
  assumes i: "DirectedEdgeGetter_init L M = Inr l2m" "DirectedEdgeGetter_init M T = Inr m2t"
    and ps: "\<And>p. p \<in> set ps \<Longrightarrow> p \<noteq> [] \<and> hd p \<in> set M \<and> last p \<in> set M"
  shows "for_yield (map (map Some) ps) (\<lambda>path.
               (case leading_of l2m path of
                  Inl e \<Rightarrow> Inl e
                | Inr leadings \<Rightarrow>
                    for_yield (order leadings) (\<lambda>ngram_leading.
                      (case trailing_of m2t path of
                         Inl e \<Rightarrow> Inl e
                       | Inr trailings \<Rightarrow>
                           for_yield (order trailings) (\<lambda>ngram_trailing.
                             (case join_sequence ngram_leading path ngram_trailing of
                                Inl e \<Rightarrow> Inl e
                              | Inr s \<Rightarrow> Inr [s]))))))
         = Inr (concat (map (path_sequences order l2m m2t L T) ps))"
proof -
  have "for_yield (map (map Some) ps) (\<lambda>path.
               (case leading_of l2m path of
                  Inl e \<Rightarrow> Inl e
                | Inr leadings \<Rightarrow>
                    for_yield (order leadings) (\<lambda>ngram_leading.
                      (case trailing_of m2t path of
                         Inl e \<Rightarrow> Inl e
                       | Inr trailings \<Rightarrow>
                           for_yield (order trailings) (\<lambda>ngram_trailing.
                             (case join_sequence ngram_leading path ngram_trailing of
                                Inl e \<Rightarrow> Inl e
                              | Inr s \<Rightarrow> Inr [s]))))))
        = Inr (concat (map (\<lambda>t. path_sequences order l2m m2t L T (map the t)) (map (map Some) ps)))"
  proof (rule for_yield_Inr)
    fix path assume "path \<in> set (map (map Some) ps)"
    then obtain p where p: "p \<in> set ps" "path = map Some p" by auto
    note f = ps [OF p(1)]
    have inner: "\<And>l. for_yield (order {t \<in> set T. overlaps m2t (last p) t})
          (\<lambda>ngram_trailing.
             (case join_sequence l (map Some p) ngram_trailing of
                Inl e \<Rightarrow> Inl e
              | Inr s \<Rightarrow> Inr [s]))
        = Inr (concat (map (\<lambda>t. [glue l (p @ [t])]) (order {t \<in> set T. overlaps m2t (last p) t})))"
      by (rule for_yield_Inr) (simp add: join_sequence_Some)
    have "for_yield (order {l \<in> set L. overlaps l2m l (hd p)})
          (\<lambda>ngram_leading.
             (case trailing_of m2t (map Some p) of
                Inl e \<Rightarrow> Inl e
              | Inr trailings \<Rightarrow>
                  for_yield (order trailings) (\<lambda>ngram_trailing.
                    (case join_sequence ngram_leading (map Some p) ngram_trailing of
                       Inl e \<Rightarrow> Inl e
                     | Inr s \<Rightarrow> Inr [s]))))
        = Inr (path_sequences order l2m m2t L T p)"
      unfolding path_sequences_def
      by (rule for_yield_Inr) (simp add: trailing_of_Some [OF i(2)] f inner)
    moreover have "map the (map Some p) = p" by (simp add: comp_def)
    ultimately show "(case leading_of l2m path of
                  Inl e \<Rightarrow> Inl e
                | Inr leadings \<Rightarrow>
                    for_yield (order leadings) (\<lambda>ngram_leading.
                      (case trailing_of m2t path of
                         Inl e \<Rightarrow> Inl e
                       | Inr trailings \<Rightarrow>
                           for_yield (order trailings) (\<lambda>ngram_trailing.
                             (case join_sequence ngram_leading path ngram_trailing of
                                Inl e \<Rightarrow> Inl e
                              | Inr s \<Rightarrow> Inr [s])))))
        = Inr (path_sequences order l2m m2t L T (map the path))"
      unfolding p(2) by (simp add: leading_of_Some [OF i(1)] f)
  qed
  then show ?thesis by (simp add: comp_def)
qed

lemma order_ok_set: "order_ok order \<Longrightarrow> finite S \<Longrightarrow> set (order S) = S"
  by (simp add: order_ok_def)

lemma multi_sequences:
  assumes o: "order_ok order"
    and i: "DirectedEdgeGetter_init L M = Inr l2m" "DirectedEdgeGetter_init M T = Inr m2t"
      "DirectedEdgeGetter_init M M = Inr mm"
    and g: "GraphPathFinder_init order (order (middle_after_leading l2m L M))
              (order (middle_before_trailing m2t M T)) num (as_dedge mm) = Inr gpf"
    and nd: "\<not> is_disconnected gpf"
    and sc: "leading_to_middle_dedge sc = l2m" "middle_to_trailing_dedge sc = m2t"
      "\<not> sc_is_disconnected sc" "sc_path_fns sc = Some (MultiMiddle gpf)"
  shows "\<exists>xs. get_all_sequences order sc = Inr xs
     \<and> set xs = sequences_of l2m m2t L T
          {p. valid_path (as_dedge mm) (order (middle_after_leading l2m L M))
                (order (middle_before_trailing m2t M T)) num p}
     \<and> (\<forall>r. \<exists>s r'. get_random_sequence order sc r = Inr (s, r') \<and> s \<in> set xs)"
proof -
  let ?sv = "middle_after_leading l2m L M" and ?ev = "middle_before_trailing m2t M T"
  let ?dg = "as_dedge mm"
  let ?P = "{p. valid_path ?dg (order ?sv) (order ?ev) num p}"
  have sv: "set (order ?sv) = ?sv" and ev: "set (order ?ev) = ?ev"
    by (rule order_ok_set [OF o pools_finite(1)], rule order_ok_set [OF o pools_finite(2)])
  have svM: "?sv \<subseteq> set M" and evM: "?ev \<subseteq> set M"
    by (auto simp: middle_after_leading_def middle_before_trailing_def)
  have ok: "dedge_ok (set M) ?dg" by (rule as_dedge_ok [OF i(3)])
  from init_constructed [OF ok o _ _ g] sv ev svM evM obtain n where
    n: "num = int n" and c: "constructed (set M) gpf n"
    and f: "start_vertices gpf = order ?sv" "end_vertices gpf = order ?ev" "dedge gpf = ?dg"
    by auto
  let ?aps = "all_paths_spec order gpf n"
  have aps: "get_all_paths order gpf = Inr (map (map Some) ?aps)"
    by (rule get_all_paths_eq [OF c nd o])
  have set_aps: "set ?aps = ?P"
    using all_paths_spec_set [OF c nd o] by (simp add: f n)
  have pf: "p \<noteq> [] \<and> hd p \<in> ?sv \<and> last p \<in> ?ev \<and> hd p \<in> set M \<and> last p \<in> set M"
    if "p \<in> ?P" for p
    using that sv ev svM evM by (auto simp: valid_path_def)
  let ?xs = "concat (map (path_sequences order l2m m2t L T) ?aps)"
  have all: "get_all_sequences order sc = Inr ?xs"
    unfolding get_all_sequences_def sc(1,2)
    using all_sequences_loop [OF i(1,2), of ?aps order] pf set_aps
    by (simp add: sc get_all_paths_fn_def aps)
  have set_xs: "set ?xs = sequences_of l2m m2t L T ?P"
    by (auto simp: set_path_sequences [OF o] set_aps sequences_of_def)
  have rnd: "\<exists>s r'. get_random_sequence order sc r = Inr (s, r') \<and> s \<in> set ?xs" for r
  proof -
    from get_random_path_ok [OF c nd o, of r] obtain p r1 where
      rp: "get_random_path order gpf r = Inr (map Some p, r1)" and p: "p \<in> ?P"
      by (auto simp: f n)
    note q = pf [OF p]
    let ?LS = "{l \<in> set L. overlaps l2m l (hd p)}" and ?TS = "{t \<in> set T. overlaps m2t (last p) t}"
    have "?LS \<noteq> {}" using q unfolding expand_update_leading(2) [OF i(1)] by blast
    from choice_order [OF o _ this, of r1] obtain l r2 where
      cl: "choice r1 (order ?LS) = Inr (l, r2)" and l: "l \<in> ?LS" by auto
    have "?TS \<noteq> {}" using q unfolding expand_update_trailing(2) [OF i(2)] by blast
    from choice_order [OF o _ this, of r2] obtain t r3 where
      ct: "choice r2 (order ?TS) = Inr (t, r3)" and t: "t \<in> ?TS" by auto
    have "get_random_sequence order sc r = Inr (glue l (p @ [t]), r3)"
      unfolding get_random_sequence_def sc(1,2)
      using q
      by (simp add: sc get_random_path_fn_def rp
            leading_of_Some [OF i(1)] trailing_of_Some [OF i(2)] cl ct join_sequence_Some)
    moreover have "glue l (p @ [t]) \<in> sequences_of l2m m2t L T ?P"
      using p l t unfolding sequences_of_def by blast
    ultimately show ?thesis using set_xs by simp
  qed
  from all set_xs rnd show ?thesis by blast
qed

lemma overlaps_pairs:
  "len_overlap d = 1 \<Longrightarrow> overlaps d [c1, c2] [c3, c4] \<longleftrightarrow> c2 = c3"
  by (simp add: overlaps_def slice_from_def slice_to_def py_len_def)

lemma valid_path_2:
  "valid_path dg sv ev 2 p \<longleftrightarrow>
     (\<exists>u v. p = [u, v] \<and> u \<in> set sv \<and> v \<in> set ev \<and> v \<in> succs dg u)"
proof
  assume v: "valid_path dg sv ev 2 p"
  then have "length p = 2" by (simp add: valid_path_def)
  then obtain u w where p: "p = [u, w]"
    by (cases p; cases "tl p") auto
  with v show "\<exists>u v. p = [u, v] \<and> u \<in> set sv \<and> v \<in> set ev \<and> v \<in> succs dg u"
    by (simp add: valid_path_def)
next
  assume "\<exists>u v. p = [u, v] \<and> u \<in> set sv \<and> v \<in> set ev \<and> v \<in> succs dg u"
  then show "valid_path dg sv ev 2 p" by (auto simp: valid_path_def)
qed

lemma example_indices:
  "\<exists>a b mm. DirectedEdgeGetter_init ex_leading ex_middle = Inr a
     \<and> DirectedEdgeGetter_init ex_middle ex_trailing = Inr b
     \<and> DirectedEdgeGetter_init ex_middle ex_middle = Inr mm
     \<and> len_overlap a = 1 \<and> len_overlap b = 1 \<and> len_overlap mm = 1"
proof -
  have "\<exists>a. DirectedEdgeGetter_init ex_leading ex_middle = Inr a"
    by (rule DirectedEdgeGetter_init_succeeds)
       (simp_all add: py_len_def ex_leading_def ex_middle_def)
  moreover have "\<exists>b. DirectedEdgeGetter_init ex_middle ex_trailing = Inr b"
    by (rule DirectedEdgeGetter_init_succeeds)
       (simp_all add: py_len_def ex_trailing_def ex_middle_def)
  moreover have "\<exists>mm. DirectedEdgeGetter_init ex_middle ex_middle = Inr mm"
    by (rule DirectedEdgeGetter_init_succeeds) (simp_all add: py_len_def ex_middle_def)
  ultimately obtain a b mm where i: "DirectedEdgeGetter_init ex_leading ex_middle = Inr a"
    "DirectedEdgeGetter_init ex_middle ex_trailing = Inr b"
    "DirectedEdgeGetter_init ex_middle ex_middle = Inr mm" by blast
  have "len_overlap a = 1" "len_overlap b = 1" "len_overlap mm = 1"
    using DirectedEdgeGetter_init_Inr(3,4,7) [OF i(1)] DirectedEdgeGetter_init_Inr(3,4,7) [OF i(2)]
      DirectedEdgeGetter_init_Inr(3,4,7) [OF i(3)]
    by (simp_all add: py_len_def ex_leading_def ex_middle_def ex_trailing_def)
  with i show ?thesis by blast
qed

lemma example_start_end:
  assumes "DirectedEdgeGetter_init ex_leading ex_middle = Inr a"
    "DirectedEdgeGetter_init ex_middle ex_trailing = Inr b"
    "len_overlap a = 1" "len_overlap b = 1"
  shows "middle_after_leading a ex_leading ex_middle = {''xx'', ''xy'', ''xz''}"
    and "middle_before_trailing b ex_middle ex_trailing = {''xx'', ''yx''}"
proof -
  show "middle_after_leading a ex_leading ex_middle = {''xx'', ''xy'', ''xz''}"
    unfolding expand_update_leading(2) [OF assms(1)]
    unfolding ex_leading_def ex_middle_def
    by (auto simp: overlaps_pairs [OF assms(3)])
  show "middle_before_trailing b ex_middle ex_trailing = {''xx'', ''yx''}"
    unfolding expand_update_trailing(2) [OF assms(2)]
    unfolding ex_trailing_def ex_middle_def
    by (auto simp: overlaps_pairs [OF assms(4)])
qed

lemma example_paths:
  assumes mm: "DirectedEdgeGetter_init ex_middle ex_middle = Inr mm" "len_overlap mm = 1"
    and sv: "set sv = {''xx'', ''xy'', ''xz''}" and ev: "set ev = {''xx'', ''yx''}"
  shows "{p. valid_path (as_dedge mm) sv ev 2 p} = {[''xx'', ''xx''], [''xy'', ''yx'']}"
proof -
  have s: "\<And>u. u \<in> set ex_middle \<Longrightarrow>
      succs (as_dedge mm) u = {v \<in> set ex_middle. overlaps mm u v}"
    by (rule as_dedge_lookups(3) [OF mm(1)])
  have s1: "succs (as_dedge mm) ''xx'' = {''xx'', ''xy'', ''xz''}"
    unfolding s [of "''xx''", unfolded ex_middle_def, simplified]
    unfolding ex_middle_def by (auto simp: overlaps_pairs [OF mm(2)])
  have s2: "succs (as_dedge mm) ''xy'' = {''yx'', ''yy''}"
    unfolding s [of "''xy''", unfolded ex_middle_def, simplified]
    unfolding ex_middle_def by (auto simp: overlaps_pairs [OF mm(2)])
  have s3: "succs (as_dedge mm) ''xz'' = {''zz''}"
    unfolding s [of "''xz''", unfolded ex_middle_def, simplified]
    unfolding ex_middle_def by (auto simp: overlaps_pairs [OF mm(2)])
  show ?thesis
    unfolding valid_path_2 sv ev by (auto simp: s1 s2 s3)
qed

lemma example_sequences_of:
  assumes "len_overlap a = 1" "len_overlap b = 1"
  shows "sequences_of a b ex_leading ex_trailing {[''xx'', ''xx''], [''xy'', ''yx'']} = ex_sequences"
  unfolding sequences_of_def ex_leading_def ex_trailing_def ex_sequences_def
  by (auto simp: overlaps_pairs [OF assms(1)] overlaps_pairs [OF assms(2)] glue_def
        slice_from_def py_len_def)

text \<open>
  C6. For length \<open>5\<close>, leading \<open>ax, bx, aa\<close>, middle \<open>xx, xy, yx, yy, zz, xz\<close> and
  trailing \<open>x1, x2, 11\<close> the creator is built connected, the strings yielded by
  \<^verbatim>\<open>get_all_sequences\<close> are exactly the eight of \<open>ex_sequences\<close>, and for every
  outcome of the random source \<^verbatim>\<open>get_random_sequence\<close> returns one of them. This holds
  for every iteration order of the sets involved.
\<close>

theorem example_sequences:
  "order_ok order \<longrightarrow>
     (\<exists>sc. SequenceCreator_init order 5 ex_leading ex_middle ex_trailing = Inr sc
        \<and> \<not> sc_is_disconnected sc
        \<and> (\<exists>xs. get_all_sequences order sc = Inr xs \<and> set xs = ex_sequences)
        \<and> (\<forall>r. \<exists>s r'. get_random_sequence order sc r = Inr (s, r') \<and> s \<in> ex_sequences))"
proof
  assume o: "order_ok order"
  from example_indices obtain a b mm where
    i: "DirectedEdgeGetter_init ex_leading ex_middle = Inr a"
      "DirectedEdgeGetter_init ex_middle ex_trailing = Inr b"
      "DirectedEdgeGetter_init ex_middle ex_middle = Inr mm"
    and lo: "len_overlap a = 1" "len_overlap b = 1" "len_overlap mm = 1" by blast
  let ?sv = "middle_after_leading a ex_leading ex_middle"
  let ?ev = "middle_before_trailing b ex_middle ex_trailing"
  note se = example_start_end [OF i(1,2) lo(1,2)]
  have sv: "set (order ?sv) = {''xx'', ''xy'', ''xz''}"
    using order_ok_set [OF o pools_finite(1), of a ex_leading ex_middle] se(1) by simp
  have ev: "set (order ?ev) = {''xx'', ''yx''}"
    using order_ok_set [OF o pools_finite(2), of b ex_middle ex_trailing] se(2) by simp
  have P: "{p. valid_path (as_dedge mm) (order ?sv) (order ?ev) 2 p}
      = {[''xx'', ''xx''], [''xy'', ''yx'']}"
    by (rule example_paths [OF i(3) lo(3) sv ev])
  have ok: "dedge_ok (set ex_middle) (as_dedge mm)" by (rule as_dedge_ok [OF i(3)])
  have sub: "set (order ?sv) \<subseteq> set ex_middle" "set (order ?ev) \<subseteq> set ex_middle"
    unfolding sv ev by (simp_all add: ex_middle_def)
  have ne: "order ?sv \<noteq> []" "order ?ev \<noteq> []"
  proof -
    have "set (order ?sv) \<noteq> {}" "set (order ?ev) \<noteq> {}" unfolding sv ev by simp_all
    then show "order ?sv \<noteq> []" "order ?ev \<noteq> []" by (simp_all only: set_empty not_False_eq_True)
  qed
  have "\<exists>g. GraphPathFinder_init order (order ?sv) (order ?ev) 2 (as_dedge mm) = Inr g"
    by (rule init_succeeds [OF ok o sub ne]) simp
  then obtain gpf where
    g: "GraphPathFinder_init order (order ?sv) (order ?ev) 2 (as_dedge mm) = Inr gpf" ..
  from init_constructed [OF ok o sub g] obtain n where
    n: "(2::int) = int n" and c: "constructed (set ex_middle) gpf n"
    and f: "start_vertices gpf = order ?sv" "end_vertices gpf = order ?ev"
      "dedge gpf = as_dedge mm" by blast
  have "valid_path (as_dedge mm) (order ?sv) (order ?ev) 2 [''xx'', ''xx'']" using P by blast
  then have nd: "\<not> is_disconnected gpf"
    using constructed_disconnected_iff [OF c] f n by auto
  have num: "get_num_middle_vertices 5 (py_len (hd ex_leading)) (py_len (hd ex_middle))
      (py_len (hd ex_trailing)) = 2"
    by (simp add: get_num_middle_vertices_def get_len_single_middle_vertex_def py_len_def
          ex_leading_def ex_middle_def ex_trailing_def)
  have card: "card ?sv \<noteq> 0" "card ?ev \<noteq> 0" unfolding se by simp_all
  let ?sc = "\<lparr>leading_to_middle_dedge = a, middle_to_trailing_dedge = b,
              sc_start_vertices = ?sv, sc_end_vertices = ?ev,
              sc_is_disconnected = is_disconnected gpf,
              sc_path_fns = Some (MultiMiddle gpf)\<rparr>"
  have init: "SequenceCreator_init order 5 ex_leading ex_middle ex_trailing = Inr ?sc"
    using card
    by (simp add: SequenceCreator_init_def i expand_update_leading(1) [OF i(1)]
          expand_update_trailing(1) [OF i(2)] Let_def num multi_middle_vertex_init_def g)
  have "\<exists>xs. get_all_sequences order ?sc = Inr xs
     \<and> set xs = sequences_of a b ex_leading ex_trailing
          {p. valid_path (as_dedge mm) (order ?sv) (order ?ev) 2 p}
     \<and> (\<forall>r. \<exists>s r'. get_random_sequence order ?sc r = Inr (s, r') \<and> s \<in> set xs)"
    by (rule multi_sequences [OF o i g nd]) (simp_all add: nd)
  then obtain xs where xs: "get_all_sequences order ?sc = Inr xs"
    "set xs = ex_sequences"
    "\<forall>r. \<exists>s r'. get_random_sequence order ?sc r = Inr (s, r') \<and> s \<in> set xs"
    unfolding P example_sequences_of [OF lo(1,2)] by blast
  show "\<exists>sc. SequenceCreator_init order 5 ex_leading ex_middle ex_trailing = Inr sc
        \<and> \<not> sc_is_disconnected sc
        \<and> (\<exists>xs. get_all_sequences order sc = Inr xs \<and> set xs = ex_sequences)
        \<and> (\<forall>r. \<exists>s r'. get_random_sequence order sc r = Inr (s, r') \<and> s \<in> ex_sequences)"
    using init nd xs by (intro exI [of _ ?sc]) auto
qed

theorem example_sequences_witness:
  "order_ok (sorted_list_of_set :: string set \<Rightarrow> string list)
   \<and> (\<exists>sc. SequenceCreator_init sorted_list_of_set 5 ex_leading ex_middle ex_trailing = Inr sc
        \<and> \<not> sc_is_disconnected sc
        \<and> (\<exists>xs. get_all_sequences sorted_list_of_set sc = Inr xs \<and> set xs = ex_sequences)
        \<and> (\<exists>s r'. get_random_sequence sorted_list_of_set sc (\<lambda>i. i) = Inr (s, r')
              \<and> s \<in> ex_sequences))"
proof -
  have o: "order_ok (sorted_list_of_set :: string set \<Rightarrow> string list)"
    by (rule sorted_list_of_set_ok)
  from example_sequences [of sorted_list_of_set] o show ?thesis by blast
qed

end
